theory Spec2Isabelle
  imports Main "HOL-Library.FSet" "HOL-Library.Multiset"
begin

section \<open>Data model of the homomorphism searcher\<close>

text \<open>
  The development embeds \<^verbatim>\<open>src/homomorphism_searcher.cc\<close>. Vertices are dense
  non-negative indices (\<^typ>\<open>nat\<close>). The bitset class of the domains is declared
  outside this file. Modelled from the spec: a bitset over target vertices is the finite
  set of the positions of its set bits, with the operations the source calls on it
  (\<^verbatim>\<open>find_first\<close>, \<^verbatim>\<open>reset\<close>, \<^verbatim>\<open>set\<close>, \<^verbatim>\<open>test\<close>, \<^verbatim>\<open>count\<close>, \<^verbatim>\<open>any\<close>,
  \<^verbatim>\<open>&=\<close>, \<^verbatim>\<open>intersect_with_complement\<close>). \<^verbatim>\<open>npos\<close>, the answer of \<^verbatim>\<open>find_first\<close>
  on an empty bitset, is \<^term>\<open>None\<close>.
\<close>

type_synonym bitset = "nat fset"

definition find_first :: "bitset \<Rightarrow> nat option" where
  "find_first s = (if s = {||} then None else Some (fMin s))"

definition reset :: "nat \<Rightarrow> bitset \<Rightarrow> bitset" where
  "reset x s = s |-| {|x|}"

definition test :: "bitset \<Rightarrow> nat \<Rightarrow> bool" where
  "test s x = (x |\<in>| s)"

definition intersect_with_complement :: "bitset \<Rightarrow> bitset \<Rightarrow> bitset" where
  "intersect_with_complement s r = s |-| r"

record HomomorphismAssignment =
  pattern_vertex :: nat
  target_vertex :: nat

record HomomorphismAssignmentInformation =
  assignment :: HomomorphismAssignment
  is_decision :: bool
  discrepancy_count :: int
  choice_count :: int

text \<open>
  \<^verbatim>\<open>HomomorphismAssignments\<close> wraps the vector \<^verbatim>\<open>values\<close> of trail entries; the model
  is the list itself, the top of the stack being its last element.
\<close>

type_synonym HomomorphismAssignments = "HomomorphismAssignmentInformation list"

definition contains :: "HomomorphismAssignments \<Rightarrow> HomomorphismAssignment \<Rightarrow> bool" where
  "contains assignments a = (\<exists>e \<in> set assignments. assignment e = a)"

text \<open>
  The fields \<^verbatim>\<open>v\<close>, \<^verbatim>\<open>values\<close>, \<^verbatim>\<open>count\<close> and \<^verbatim>\<open>fixed\<close> of a domain carry the
  prefix \<open>d_\<close>: \<open>count\<close> is a constant of the multiset library and \<open>v\<close> a variable
  name throughout. \<^verbatim>\<open>count\<close> is an \<^verbatim>\<open>unsigned\<close>; the one place where it is
  decremented writes the wrap-around out.
\<close>

record HomomorphismDomain =
  d_v :: nat
  d_values :: bitset
  d_count :: nat
  d_fixed :: bool

type_synonym Domains = "HomomorphismDomain list"

datatype SearchResult =
  Aborted | Unsatisfiable | UnsatisfiableAndBackjumpUsingLackey | Satisfiable
  | SatisfiableButKeepGoing | Restart

datatype Injectivity = Injective | LocallyInjective | NonInjective

datatype ValueOrdering = Degree | AntiDegree | Biased | Random

datatype PropagateUsingLackey = Never | Always | RootAndBackjump

type_synonym VertexToVertexMapping = "nat \<rightharpoonup> nat"

text \<open>
  The parameters the searcher reads. \<open>lackey\<close> and \<open>enumerate_callback\<close> say whether
  the collaborator is configured; \<open>might_have_watches\<close> is the value of the predicate
  of that name on the parameters (it is declared in a header). The proof logger
  \<^verbatim>\<open>params.proof\<close> only receives notifications and never feeds anything back into the
  search: its calls are not part of the model.
\<close>

record HomomorphismParams =
  injectivity :: Injectivity
  induced :: bool
  bigraph :: bool
  count_solutions :: bool
  value_ordering_heuristic :: ValueOrdering
  propagate_using_lackey :: PropagateUsingLackey
  send_partials_to_lackey :: bool
  lackey :: bool
  enumerate_callback :: bool
  might_have_watches :: bool

text \<open>The immutable model: the queries the searcher makes of it.\<close>

record HomomorphismModel =
  pattern_size :: nat
  target_size :: nat
  max_graphs :: nat
  pattern_link_count :: nat
  pattern_degree :: "nat \<Rightarrow> nat \<Rightarrow> nat"
  target_degree :: "nat \<Rightarrow> nat \<Rightarrow> nat"
  largest_target_degree :: nat
  pattern_graph_row :: "nat \<Rightarrow> nat \<Rightarrow> bitset"
  target_graph_row :: "nat \<Rightarrow> nat \<Rightarrow> bitset"
  forward_target_graph_row :: "nat \<Rightarrow> bitset"
  reverse_target_graph_row :: "nat \<Rightarrow> bitset"
  pattern_adjacency_bits :: "nat \<Rightarrow> nat \<Rightarrow> nat"
  directed :: bool
  has_edge_labels :: bool
  pattern_edge_label :: "nat \<Rightarrow> nat \<Rightarrow> nat"
  target_edge_label :: "nat \<Rightarrow> nat \<Rightarrow> nat"
  has_less_thans :: bool
  pattern_less_thans_in_convenient_order :: "(nat \<times> nat) list"
  check_extra_bigraph_constraints :: "VertexToVertexMapping \<Rightarrow> bool"

section \<open>Variable selection\<close>

text \<open>
  \<^verbatim>\<open>find_branch_domain\<close> returns a pointer into the collection; the model returns the
  index of the element pointed to, \<^term>\<open>None\<close> for the null pointer. The loop visits
  the domains in collection order.
\<close>

definition find_branch_domain_step ::
  "HomomorphismModel \<Rightarrow> Domains \<Rightarrow> nat option \<Rightarrow> nat \<Rightarrow> nat option" where
  "find_branch_domain_step m domains result i =
     (let d = domains ! i in
      if \<not> d_fixed d then
        (case result of
           None \<Rightarrow> Some i
         | Some r \<Rightarrow>
             if d_count d < d_count (domains ! r)
                \<or> (d_count d = d_count (domains ! r)
                    \<and> pattern_degree m 0 (d_v d) > pattern_degree m 0 (d_v (domains ! r)))
             then Some i else result)
      else result)"

definition find_branch_domain :: "HomomorphismModel \<Rightarrow> Domains \<Rightarrow> nat option" where
  "find_branch_domain m domains =
     foldl (find_branch_domain_step m domains) None [0..<length domains]"

section \<open>Collaborators\<close>

text \<open>
  The searcher talks to collaborators that live outside this file: the timeout, the
  restarts schedule, the lackey, the watched-nogood store, the random generator
  \<^verbatim>\<open>global_rand\<close> and the enumeration callback. Their state is one value of an
  arbitrary type \<open>'w\<close>, threaded through every call in program order; each call is a
  function of the record below. Nothing is assumed of these functions.

  A lackey that is handed a deletion function may call it any number of times and see
  each answer before it goes on: its run is a tree of such calls that ends with the
  verdict and the state it leaves behind. A lackey that is handed the empty deletion
  function can only give its verdict (\<open>check_solution\<close>).

  Modelled from the spec: \<^verbatim>\<open>watches.propagate\<close> (the watch store is declared in a
  header) receives the new assignment and the test \<open>is_unassigned\<close>, and calls
  \<open>on_unit\<close> for the literals of the nogoods that became unit; the model's function
  returns those literals in call order. Modelled from the spec:
  \<^verbatim>\<open>cheap_all_different\<close> (declared in \<^verbatim>\<open>cheap_all_different.hh\<close>) prunes values from
  the domains it is given and reports failure; the model's function returns the verdict
  and, for each position of the collection, the values pruned there.
\<close>

datatype 'w lackey_run =
  Answer bool 'w
  | Delete nat nat "bool \<Rightarrow> 'w lackey_run"

record 'w Collaborators =
  should_abort :: "'w \<Rightarrow> bool \<times> 'w"
  did_a_backtrack :: "'w \<Rightarrow> 'w"
  should_restart :: "'w \<Rightarrow> bool \<times> 'w"
  check_solution :: "VertexToVertexMapping \<Rightarrow> bool \<Rightarrow> bool \<Rightarrow> 'w \<Rightarrow> bool \<times> 'w"
  check_solution_deleting :: "VertexToVertexMapping \<Rightarrow> bool \<Rightarrow> bool \<Rightarrow> 'w \<Rightarrow> 'w lackey_run"
  enumerate_solution :: "VertexToVertexMapping \<Rightarrow> 'w \<Rightarrow> 'w"
  watches_post_nogood :: "HomomorphismAssignment list \<Rightarrow> 'w \<Rightarrow> 'w"
  watches_propagate ::
    "HomomorphismAssignment \<Rightarrow> (HomomorphismAssignment \<Rightarrow> bool) \<Rightarrow> 'w
      \<Rightarrow> HomomorphismAssignment list \<times> 'w"
  cheap_all_different :: "nat \<Rightarrow> Domains \<Rightarrow> bool \<times> (nat \<Rightarrow> bitset)"
  uniform_int_distribution :: "int \<Rightarrow> int \<Rightarrow> 'w \<Rightarrow> int \<times> 'w"
  shuffle :: "nat list \<Rightarrow> 'w \<Rightarrow> nat list \<times> 'w"

section \<open>Value ordering\<close>

text \<open>
  The source keeps the candidates in the first \<^verbatim>\<open>branch_v_end\<close> cells of the vector
  \<^verbatim>\<open>branch_v\<close>; the model's list is that range, and \<^verbatim>\<open>branch_v_end\<close> its length.

  \<^verbatim>\<open>std::stable_sort\<close> belongs to the C++ standard library, which promises a result
  only for a comparator that is a strict weak ordering. The model is the insertion sort
  of the GNU implementation, which that library runs on a whole range of fewer than 15
  elements when it sorts in place, and on the pieces of a range that it then merges
  otherwise; the merging is not modelled. The elements are taken from left to right; one
  that the comparator orders before the first element goes to the front, any other moves
  towards the front past every neighbour that the comparator orders it before.
  \<open>unguarded_linear_insert\<close> walks the sorted prefix from its right end, so it takes and
  returns that prefix reversed.
\<close>

fun unguarded_linear_insert :: "('a \<Rightarrow> 'a \<Rightarrow> bool) \<Rightarrow> 'a \<Rightarrow> 'a list \<Rightarrow> 'a list" where
  "unguarded_linear_insert cmp val [] = [val]"
| "unguarded_linear_insert cmp val (p # ps) =
     (if cmp val p then p # unguarded_linear_insert cmp val ps else val # p # ps)"

definition insertion_step :: "('a \<Rightarrow> 'a \<Rightarrow> bool) \<Rightarrow> 'a list \<Rightarrow> 'a \<Rightarrow> 'a list" where
  "insertion_step cmp front val =
     (case front of
        [] \<Rightarrow> [val]
      | first # _ \<Rightarrow>
          if cmp val first then val # front
          else rev (unguarded_linear_insert cmp val (rev front)))"

definition stable_sort :: "('a \<Rightarrow> 'a \<Rightarrow> bool) \<Rightarrow> 'a list \<Rightarrow> 'a list" where
  "stable_sort cmp xs = foldl (insertion_step cmp) [] xs"

text \<open>The comparator that \<^verbatim>\<open>degree_sort\<close> passes to the sort: a lambda in the source.\<close>

definition degree_sort_comparator :: "HomomorphismModel \<Rightarrow> bool \<Rightarrow> nat \<Rightarrow> nat \<Rightarrow> bool" where
  "degree_sort_comparator m reverse =
     (\<lambda>a b. (target_degree m 0 a \<ge> target_degree m 0 b) \<noteq> reverse)"

definition degree_sort :: "HomomorphismModel \<Rightarrow> nat list \<Rightarrow> bool \<Rightarrow> nat list" where
  "degree_sort m branch_v reverse = stable_sort (degree_sort_comparator m reverse) branch_v"

text \<open>
  \<^verbatim>\<open>softmax_shuffle\<close> computes in \<^verbatim>\<open>long long\<close>. A shift of 63 or more places, a sum
  beyond the largest \<^verbatim>\<open>long long\<close> and a distribution over an empty range have no
  defined result: the model answers \<^term>\<open>None\<close> there. The degree arithmetic stays far
  inside \<^verbatim>\<open>int\<close> and is done in \<^typ>\<open>int\<close>.
\<close>

definition LLONG_MAX :: int where
  "LLONG_MAX = 2 ^ 63 - 1"

definition sufficient_space_for_adding_up :: int where
  "sufficient_space_for_adding_up = 63 - 18"

definition expish :: "HomomorphismModel \<Rightarrow> int \<Rightarrow> int option" where
  "expish m degree =
     (let shift = max (degree - int (largest_target_degree m) + sufficient_space_for_adding_up) 0
      in if shift < 63 then Some (2 ^ nat shift) else None)"

fun softmax_total :: "HomomorphismModel \<Rightarrow> nat list \<Rightarrow> int \<Rightarrow> int option" where
  "softmax_total m [] total' = Some total'"
| "softmax_total m (x # xs) total' =
     (case expish m (int (target_degree m 0 x)) of
        None \<Rightarrow> None
      | Some w \<Rightarrow> if total' + w > LLONG_MAX then None else softmax_total m xs (total' + w))"

function softmax_select ::
  "HomomorphismModel \<Rightarrow> nat list \<Rightarrow> nat \<Rightarrow> int \<Rightarrow> nat option" where
  "softmax_select m branch_v select_element select_score =
     (if select_element + 1 < length branch_v then
        (case expish m (int (target_degree m 0 (branch_v ! select_element))) of
           None \<Rightarrow> None
         | Some w \<Rightarrow>
             if select_score - w \<le> 0 then Some select_element
             else softmax_select m branch_v (select_element + 1) (select_score - w))
      else Some select_element)"
  by pat_completeness auto
termination
  by (relation "measure (\<lambda>(m, branch_v, select_element, select_score). length branch_v - select_element)") auto

declare softmax_select.simps [simp del]

function softmax_rounds ::
  "'w Collaborators \<Rightarrow> HomomorphismModel \<Rightarrow> nat list \<Rightarrow> nat \<Rightarrow> int \<Rightarrow> 'w \<Rightarrow> (nat list \<times> 'w) option" where
  "softmax_rounds env m branch_v start total' s =
     (if start < length branch_v then
        (if total' < 1 then None
         else
           (case uniform_int_distribution env 1 total' s of (select_score, s') \<Rightarrow>
              (case softmax_select m branch_v start select_score of
                 None \<Rightarrow> None
               | Some select_element \<Rightarrow>
                   (case expish m (int (target_degree m 0 (branch_v ! select_element))) of
                      None \<Rightarrow> None
                    | Some w \<Rightarrow>
                        softmax_rounds env m
                          (branch_v[select_element := branch_v ! start, start := branch_v ! select_element])
                          (start + 1) (total' - w) s'))))
      else Some (branch_v, s))"
  by pat_completeness auto
termination
  by (relation "measure (\<lambda>(env, m, branch_v, start, total', s). length branch_v - start)") auto

declare softmax_rounds.simps [simp del]

definition softmax_shuffle ::
  "'w Collaborators \<Rightarrow> HomomorphismModel \<Rightarrow> nat list \<Rightarrow> 'w \<Rightarrow> (nat list \<times> 'w) option" where
  "softmax_shuffle env m branch_v s =
     (case softmax_total m branch_v 0 of
        None \<Rightarrow> None
      | Some total' \<Rightarrow> softmax_rounds env m branch_v 0 total' s)"

section \<open>Propagation\<close>

lemma find_first_Some_member: "find_first s = Some x \<Longrightarrow> x |\<in>| s"
  by (cases "s = {||}") (simp_all add: find_first_def, blast intro: fMin_in)

lemma fcard_reset_find_first: "find_first s = Some x \<Longrightarrow> fcard (reset x s) < fcard s"
  unfolding reset_def by (rule fcard_fminus1_less) (rule find_first_Some_member)

text \<open>
  Three loops of the source have one shape: they walk the set bits of a scratch copy
  \<open>check\<close> in increasing order, clearing each in the copy, and clear in \<open>vals\<close> those
  for which a test holds. They are the two edge-label loops of
  \<^verbatim>\<open>propagate_adjacency_constraints\<close> and the loop over \<^verbatim>\<open>a_values_copy\<close> in
  \<^verbatim>\<open>propagate_less_thans\<close>.
\<close>

function reset_where :: "(nat \<Rightarrow> bool) \<Rightarrow> bitset \<Rightarrow> bitset \<Rightarrow> bitset" where
  "reset_where P check vals =
     (case find_first check of
        None \<Rightarrow> vals
      | Some c \<Rightarrow> reset_where P (reset c check) (if P c then reset c vals else vals))"
  by pat_completeness auto
termination
  by (relation "measure (\<lambda>(P, check, vals). fcard check)") (auto simp: fcard_reset_find_first)

declare reset_where.simps [simp del]

definition propagate_adjacency_constraints ::
  "bool \<Rightarrow> bool \<Rightarrow> bool \<Rightarrow> HomomorphismModel \<Rightarrow> HomomorphismDomain \<Rightarrow> HomomorphismAssignment
    \<Rightarrow> HomomorphismDomain" where
  "propagate_adjacency_constraints directed' has_edge_labels' induced' m d current_assignment =
     (let graph_pairs_to_consider =
            pattern_adjacency_bits m (pattern_vertex current_assignment) (d_v d);
          reverse_edge_graph_pairs_to_consider =
            pattern_adjacency_bits m (d_v d) (pattern_vertex current_assignment);
          t = target_vertex current_assignment;
          vals0 = d_values d;
          vals1 =
            (if \<not> directed' then
               (if bit graph_pairs_to_consider 0 then vals0 |\<inter>| target_graph_row m 0 t
                else if induced' then intersect_with_complement vals0 (target_graph_row m 0 t)
                else vals0)
             else
               (let fwd =
                      (if bit graph_pairs_to_consider 0 then vals0 |\<inter>| forward_target_graph_row m t
                       else if induced' then
                         intersect_with_complement vals0 (forward_target_graph_row m t)
                       else vals0)
                in if bit reverse_edge_graph_pairs_to_consider 0 then
                     fwd |\<inter>| reverse_target_graph_row m t
                   else if induced' then
                     intersect_with_complement fwd (reverse_target_graph_row m t)
                   else fwd));
          vals2 =
            foldl (\<lambda>vals g. if bit graph_pairs_to_consider g then vals |\<inter>| target_graph_row m g t
                              else vals)
              vals1 [1..<max_graphs m];
          vals3 =
            (if has_edge_labels' then
               (let want_forward_label =
                      pattern_edge_label m (pattern_vertex current_assignment) (d_v d);
                    want_reverse_label =
                      pattern_edge_label m (d_v d) (pattern_vertex current_assignment);
                    fwd =
                      (if bit graph_pairs_to_consider 0 then
                         reset_where (\<lambda>c. target_edge_label m t c \<noteq> want_forward_label) vals2 vals2
                       else vals2)
                in if bit reverse_edge_graph_pairs_to_consider 0 then
                     reset_where (\<lambda>c. target_edge_label m c t \<noteq> want_reverse_label) fwd fwd
                   else fwd)
             else vals2)
      in d\<lparr>d_values := vals3\<rparr>)"

definition both_in_the_neighbourhood_of_some_vertex ::
  "HomomorphismModel \<Rightarrow> nat \<Rightarrow> nat \<Rightarrow> bool" where
  "both_in_the_neighbourhood_of_some_vertex m x w =
     (pattern_graph_row m 0 x |\<inter>| pattern_graph_row m 0 w \<noteq> {||})"

text \<open>The body of the loop of \<^verbatim>\<open>propagate_simple_constraints\<close> for one domain that is not fixed.\<close>

definition simple_constraints_on ::
  "HomomorphismParams \<Rightarrow> HomomorphismModel \<Rightarrow> HomomorphismAssignment \<Rightarrow> HomomorphismDomain
    \<Rightarrow> HomomorphismDomain" where
  "simple_constraints_on params m current_assignment d =
     (let d1 =
            (case injectivity params of
               Injective \<Rightarrow> d\<lparr>d_values := reset (target_vertex current_assignment) (d_values d)\<rparr>
             | LocallyInjective \<Rightarrow>
                 if both_in_the_neighbourhood_of_some_vertex m
                      (pattern_vertex current_assignment) (d_v d)
                 then d\<lparr>d_values := reset (target_vertex current_assignment) (d_values d)\<rparr>
                 else d
             | NonInjective \<Rightarrow> d);
          d2 =
            (if \<not> has_edge_labels m then
               (if induced params then
                  (if directed m then
                     propagate_adjacency_constraints True False True m d1 current_assignment
                   else propagate_adjacency_constraints False False True m d1 current_assignment)
                else
                  (if directed m then
                     propagate_adjacency_constraints True False False m d1 current_assignment
                   else propagate_adjacency_constraints False False False m d1 current_assignment))
             else
               (if induced params then
                  propagate_adjacency_constraints True True True m d1 current_assignment
                else propagate_adjacency_constraints True True False m d1 current_assignment))
      in d2\<lparr>d_count := fcard (d_values d2)\<rparr>)"

text \<open>
  Functions that change the domains in place and answer a \<^verbatim>\<open>bool\<close> return the answer
  together with the domains as they stand at the return.
\<close>

fun propagate_simple_constraints ::
  "HomomorphismParams \<Rightarrow> HomomorphismModel \<Rightarrow> Domains \<Rightarrow> HomomorphismAssignment \<Rightarrow> bool \<times> Domains" where
  "propagate_simple_constraints params m [] current_assignment = (True, [])"
| "propagate_simple_constraints params m (d # new_domains) current_assignment =
     (if d_fixed d then
        (case propagate_simple_constraints params m new_domains current_assignment of
           (ok, rest) \<Rightarrow> (ok, d # rest))
      else
        (let d' = simple_constraints_on params m current_assignment d
         in if d_count d' = 0 then (False, d' # new_domains)
            else
              (case propagate_simple_constraints params m new_domains current_assignment of
                 (ok, rest) \<Rightarrow> (ok, d' # rest))))"

subsection \<open>Less-than constraints\<close>

text \<open>
  \<^verbatim>\<open>find_domain\<close> maps a pattern vertex to the position of its domain, \<open>-1\<close> (here
  \<^term>\<open>None\<close>) when it has none; a later position overwrites an earlier one. The
  vector has \<^verbatim>\<open>pattern_size\<close> cells; the model does not trap an index beyond them.
\<close>

definition find_domain :: "Domains \<Rightarrow> (nat \<rightharpoonup> nat)" where
  "find_domain new_domains =
     foldl (\<lambda>fd i. fd(d_v (new_domains ! i) \<mapsto> i)) Map.empty [0..<length new_domains]"

text \<open>The inner loop of the first pass: clear the lowest set bit until it reaches the bound.\<close>

function strip_below :: "nat \<Rightarrow> bitset \<Rightarrow> bitset" where
  "strip_below first_allowed_b vals =
     (case find_first vals of
        None \<Rightarrow> vals
      | Some x \<Rightarrow>
          if x \<ge> first_allowed_b then vals
          else strip_below first_allowed_b (reset x vals))"
  by pat_completeness auto
termination
  by (relation "measure (\<lambda>(first_allowed_b, vals). fcard vals)") (auto simp: fcard_reset_find_first)

declare strip_below.simps [simp del]

definition less_thans_first_step ::
  "HomomorphismModel \<Rightarrow> (nat \<rightharpoonup> nat) \<Rightarrow> Domains \<Rightarrow> nat \<times> nat \<Rightarrow> bool \<times> Domains" where
  "less_thans_first_step m fd new_domains ab =
     (case (fd (fst ab), fd (snd ab)) of
        (Some ia, Some ib) \<Rightarrow>
          (case find_first (d_values (new_domains ! ia)) of
             None \<Rightarrow> (False, new_domains)
           | Some first_a \<Rightarrow>
               (let first_allowed_b = first_a + 1
                in if first_allowed_b \<ge> target_size m then (False, new_domains)
                   else
                     (let b_domain = new_domains ! ib;
                          vals = strip_below first_allowed_b (d_values b_domain);
                          b_domain' = b_domain\<lparr>d_values := vals, d_count := fcard vals\<rparr>
                      in (d_count b_domain' \<noteq> 0, new_domains[ib := b_domain']))))
      | _ \<Rightarrow> (True, new_domains))"

text \<open>
  The scan for \<^verbatim>\<open>last_b\<close>: \<open>x\<close> is the loop variable \<^verbatim>\<open>v\<close>, which starts as the first
  set bit of \<open>b\<close> and is afterwards the first set bit of the scratch copy.
\<close>

function last_b_scan :: "bitset \<Rightarrow> nat option \<Rightarrow> nat option \<Rightarrow> nat option" where
  "last_b_scan b_values_copy x last_b =
     (case x of
        None \<Rightarrow> last_b
      | Some x' \<Rightarrow>
          last_b_scan (reset x' b_values_copy) (find_first (reset x' b_values_copy)) (Some x'))"
  by pat_completeness auto
termination
proof (relation "measure (\<lambda>(c, x, l). fcard c + (case x of None \<Rightarrow> 0 | Some y \<Rightarrow> if y |\<in>| c then 0 else 1))")
  show "wf (measure (\<lambda>(c, x, l). fcard c + (case x of None \<Rightarrow> 0 | Some y \<Rightarrow> if y |\<in>| c then 0 else 1)))"
    by simp
next
  fix b_values_copy :: bitset and x :: "nat option" and last_b :: "nat option" and x' :: nat
  assume "x = Some x'"
  have next_in: "(case find_first (reset x' b_values_copy) of None \<Rightarrow> 0
                  | Some y \<Rightarrow> if y |\<in>| reset x' b_values_copy then 0 else 1) = (0::nat)"
    by (auto split: option.splits dest: find_first_Some_member)
  have "fcard (reset x' b_values_copy)
          < fcard b_values_copy + (if x' |\<in>| b_values_copy then 0 else 1)"
  proof (cases "x' |\<in>| b_values_copy")
    case True
    then have "fcard (reset x' b_values_copy) < fcard b_values_copy"
      unfolding reset_def by (rule fcard_fminus1_less)
    with True show ?thesis by simp
  next
    case False
    then have "reset x' b_values_copy = b_values_copy" by (auto simp: reset_def)
    with False show ?thesis by simp
  qed
  with next_in \<open>x = Some x'\<close>
  show "((reset x' b_values_copy, find_first (reset x' b_values_copy), Some x'),
         (b_values_copy, x, last_b))
        \<in> measure (\<lambda>(c, x, l). fcard c + (case x of None \<Rightarrow> 0 | Some y \<Rightarrow> if y |\<in>| c then 0 else 1))"
    by simp
qed

declare last_b_scan.simps [simp del]

text \<open>
  \<^verbatim>\<open>last_b\<close> is \<^verbatim>\<open>npos\<close> when \<open>b\<close> has no set bit; \<^verbatim>\<open>npos - 1\<close> then lies above every
  bit position, and nothing is cleared in \<open>a\<close>.
\<close>

definition less_thans_second_step ::
  "HomomorphismModel \<Rightarrow> (nat \<rightharpoonup> nat) \<Rightarrow> Domains \<Rightarrow> nat \<times> nat \<Rightarrow> bool \<times> Domains" where
  "less_thans_second_step m fd new_domains ab =
     (case (fd (fst ab), fd (snd ab)) of
        (Some ia, Some ib) \<Rightarrow>
          (let b_domain = new_domains ! ib;
               last_b = last_b_scan (d_values b_domain) (find_first (d_values b_domain))
                          (find_first (d_values b_domain))
           in if last_b = Some 0 then (False, new_domains)
              else
                (let a_domain = new_domains ! ia;
                     vals =
                       reset_where
                         (\<lambda>x. case last_b of None \<Rightarrow> False | Some l \<Rightarrow> x > l - 1)
                         (d_values a_domain) (d_values a_domain);
                     a_domain' = a_domain\<lparr>d_values := vals, d_count := fcard vals\<rparr>
                 in (d_count a_domain' \<noteq> 0, new_domains[ia := a_domain'])))
      | _ \<Rightarrow> (True, new_domains))"

text \<open>A pass runs its step over the pairs in order and stops at the first \<^verbatim>\<open>return false\<close>.\<close>

fun less_thans_pass ::
  "(Domains \<Rightarrow> nat \<times> nat \<Rightarrow> bool \<times> Domains) \<Rightarrow> (nat \<times> nat) list \<Rightarrow> Domains \<Rightarrow> bool \<times> Domains" where
  "less_thans_pass step [] new_domains = (True, new_domains)"
| "less_thans_pass step (ab # rest) new_domains =
     (case step new_domains ab of
        (False, ds) \<Rightarrow> (False, ds)
      | (True, ds) \<Rightarrow> less_thans_pass step rest ds)"

definition propagate_less_thans :: "HomomorphismModel \<Rightarrow> Domains \<Rightarrow> bool \<times> Domains" where
  "propagate_less_thans m new_domains =
     (let fd = find_domain new_domains
      in case less_thans_pass (less_thans_first_step m fd)
                (pattern_less_thans_in_convenient_order m) new_domains of
           (False, ds) \<Rightarrow> (False, ds)
         | (True, ds) \<Rightarrow>
             less_thans_pass (less_thans_second_step m fd)
               (pattern_less_thans_in_convenient_order m) ds)"

subsection \<open>Unit propagation and the lackey\<close>

definition propagate_hyperedge_constraints :: "Domains \<Rightarrow> HomomorphismAssignment \<Rightarrow> bool" where
  "propagate_hyperedge_constraints new_domains current_assignment = True"

text \<open>The position of the first domain that is not fixed and has count 1, if there is one.\<close>

fun find_unit_domain :: "Domains \<Rightarrow> nat option" where
  "find_unit_domain [] = None"
| "find_unit_domain (d # new_domains) =
     (if \<not> d_fixed d \<and> d_count d = 1 then Some 0
      else map_option Suc (find_unit_domain new_domains))"

text \<open>
  The callback handed to \<^verbatim>\<open>watches.propagate\<close> for a literal \<open>a\<close> of a unit nogood:
  clear the target of \<open>a\<close> in the first domain that is not fixed and belongs to the
  pattern vertex of \<open>a\<close>.
\<close>

fun on_unit_nogood :: "HomomorphismAssignment \<Rightarrow> Domains \<Rightarrow> Domains" where
  "on_unit_nogood a [] = []"
| "on_unit_nogood a (d # new_domains) =
     (if d_fixed d then d # on_unit_nogood a new_domains
      else if d_v d = pattern_vertex a then
        d\<lparr>d_values := reset (target_vertex a) (d_values d)\<rparr> # new_domains
      else d # on_unit_nogood a new_domains)"

definition apply_cheap_all_different ::
  "'w Collaborators \<Rightarrow> HomomorphismModel \<Rightarrow> Domains \<Rightarrow> bool \<times> Domains" where
  "apply_cheap_all_different env m new_domains =
     (case cheap_all_different env (target_size m) new_domains of
        (ok, pruned) \<Rightarrow>
          (ok, map (\<lambda>i. let d = new_domains ! i;
                            vals = intersect_with_complement (d_values d) (pruned i)
                        in d\<lparr>d_values := vals, d_count := fcard vals\<rparr>)
                 [0..<length new_domains]))"

text \<open>
  \<^verbatim>\<open>unsigned(npos)\<close>, what the target of the assignment would be if a domain of count 1
  had no set bit.
\<close>

definition unsigned_npos :: nat where
  "unsigned_npos = 2 ^ 32 - 1"

text \<open>
  One round of the loop of \<^verbatim>\<open>propagate\<close>, for the unit domain at position \<open>i\<close>, in
  three parts: the assignment is made and pushed on the trail (\<open>propagate_unit\<close>), the
  watches are propagated (\<open>propagate_watches\<close>), and the filters run in the source's
  order, each \<^verbatim>\<open>return false\<close> ending the round with the answer \<^term>\<open>False\<close>
  (\<open>propagate_filters\<close>).
\<close>

definition propagate_watches ::
  "'w Collaborators \<Rightarrow> HomomorphismParams \<Rightarrow> HomomorphismAssignment \<Rightarrow> HomomorphismAssignments
    \<Rightarrow> Domains \<Rightarrow> 'w \<Rightarrow> Domains \<times> 'w" where
  "propagate_watches env params current_assignment assignments new_domains s =
     (if might_have_watches params then
        (case watches_propagate env current_assignment (\<lambda>a. \<not> contains assignments a) s of
           (units, s') \<Rightarrow> (foldl (\<lambda>ds a. on_unit_nogood a ds) new_domains units, s'))
      else (new_domains, s))"

definition propagate_filters ::
  "'w Collaborators \<Rightarrow> HomomorphismParams \<Rightarrow> HomomorphismModel \<Rightarrow> Domains
    \<Rightarrow> HomomorphismAssignment \<Rightarrow> bool \<times> Domains" where
  "propagate_filters env params m new_domains current_assignment =
     (case propagate_simple_constraints params m new_domains current_assignment of
        (False, ds1) \<Rightarrow> (False, ds1)
      | (True, ds1) \<Rightarrow>
          if bigraph params \<and> \<not> propagate_hyperedge_constraints ds1 current_assignment then
            (False, ds1)
          else
            (case (if has_less_thans m then propagate_less_thans m ds1 else (True, ds1)) of
               (False, ds2) \<Rightarrow> (False, ds2)
             | (True, ds2) \<Rightarrow>
                 if injectivity params = Injective then apply_cheap_all_different env m ds2
                 else (True, ds2)))"

definition unit_assignment :: "HomomorphismDomain \<Rightarrow> HomomorphismAssignment" where
  "unit_assignment branch_domain =
     \<lparr>pattern_vertex = d_v branch_domain,
      target_vertex =
        (case find_first (d_values branch_domain) of Some x \<Rightarrow> x | None \<Rightarrow> unsigned_npos)\<rparr>"

definition propagate_unit ::
  "'w Collaborators \<Rightarrow> HomomorphismParams \<Rightarrow> HomomorphismModel \<Rightarrow> nat \<Rightarrow> Domains
    \<Rightarrow> HomomorphismAssignments \<Rightarrow> 'w \<Rightarrow> bool \<times> Domains \<times> HomomorphismAssignments \<times> 'w" where
  "propagate_unit env params m i new_domains assignments s =
     (let branch_domain = new_domains ! i;
          current_assignment = unit_assignment branch_domain;
          ds1 = new_domains[i := branch_domain\<lparr>d_fixed := True\<rparr>];
          assignments' =
            assignments @
              [\<lparr>assignment = current_assignment, is_decision = False,
                discrepancy_count = -1, choice_count = -1\<rparr>]
      in case propagate_watches env params current_assignment assignments' ds1 s of
           (ds2, s') \<Rightarrow>
             (case propagate_filters env params m ds2 current_assignment of
                (ok, ds3) \<Rightarrow> (ok, ds3, assignments', s')))"

text \<open>No part of a round touches the \<^verbatim>\<open>fixed\<close> flags, but for the one it sets.\<close>

lemma on_unit_nogood_fixed [simp]: "map d_fixed (on_unit_nogood a ds) = map d_fixed ds"
  by (induction ds) auto

lemma foldl_on_unit_nogood_fixed [simp]:
  "map d_fixed (foldl (\<lambda>ds a. on_unit_nogood a ds) ds units) = map d_fixed ds"
  by (induction units arbitrary: ds) auto

lemma propagate_watches_fixed [simp]:
  "map d_fixed (fst (propagate_watches env params cur trail ds s)) = map d_fixed ds"
  by (simp add: propagate_watches_def split: prod.splits)

lemma propagate_adjacency_constraints_fixed [simp]:
  "d_fixed (propagate_adjacency_constraints dir lab ind m d cur) = d_fixed d"
  by (simp add: propagate_adjacency_constraints_def Let_def)

lemma simple_constraints_on_fixed [simp]:
  "d_fixed (simple_constraints_on params m cur d) = d_fixed d"
  by (simp add: simple_constraints_on_def Let_def split: Injectivity.splits)

lemma propagate_simple_constraints_fixed [simp]:
  "map d_fixed (snd (propagate_simple_constraints params m ds cur)) = map d_fixed ds"
  by (induction ds) (auto simp: Let_def split: prod.splits)

lemma map_fixed_update_values [simp]:
  "map d_fixed (ds[i := (ds ! i)\<lparr>d_values := vs, d_count := c\<rparr>]) = map d_fixed ds"
  by (cases "i < length ds") (simp_all add: map_update list_update_same_conv list_update_beyond)

lemma less_thans_first_step_fixed [simp]:
  "map d_fixed (snd (less_thans_first_step m fd ds ab)) = map d_fixed ds"
  by (simp add: less_thans_first_step_def Let_def split: option.splits)

lemma less_thans_second_step_fixed [simp]:
  "map d_fixed (snd (less_thans_second_step m fd ds ab)) = map d_fixed ds"
  by (simp add: less_thans_second_step_def Let_def split: option.splits)

lemma less_thans_pass_fixed:
  assumes "\<And>ds ab. map d_fixed (snd (step ds ab)) = map d_fixed ds"
  shows "map d_fixed (snd (less_thans_pass step pairs ds)) = map d_fixed ds"
proof (induction pairs arbitrary: ds)
  case Nil
  show ?case by simp
next
  case (Cons ab rest)
  obtain ok ds' where st: "step ds ab = (ok, ds')" by (cases "step ds ab")
  with assms [of ds ab] have "map d_fixed ds' = map d_fixed ds" by simp
  with st Cons.IH [of ds'] show ?case by (cases ok) simp_all
qed

lemma propagate_less_thans_fixed [simp]:
  "map d_fixed (snd (propagate_less_thans m ds)) = map d_fixed ds"
proof -
  let ?fd = "find_domain ds"
  let ?ps = "pattern_less_thans_in_convenient_order m"
  obtain ok ds1 where p1: "less_thans_pass (less_thans_first_step m ?fd) ?ps ds = (ok, ds1)"
    by (cases "less_thans_pass (less_thans_first_step m ?fd) ?ps ds")
  have f1: "map d_fixed ds1 = map d_fixed ds"
    using less_thans_pass_fixed [of "less_thans_first_step m ?fd" ?ps ds] p1 by simp
  have f2: "map d_fixed (snd (less_thans_pass (less_thans_second_step m ?fd) ?ps ds1)) = map d_fixed ds1"
    by (rule less_thans_pass_fixed) simp
  show ?thesis
    using p1 f1 f2 by (cases ok) (simp_all add: propagate_less_thans_def Let_def)
qed

lemma apply_cheap_all_different_fixed [simp]:
  "map d_fixed (snd (apply_cheap_all_different env m ds)) = map d_fixed ds"
proof (cases "cheap_all_different env (target_size m) ds")
  case (Pair ok pruned)
  have "map d_fixed (map (\<lambda>i. (ds ! i)\<lparr>d_values := f i, d_count := g i\<rparr>) [0..<length ds])
          = map d_fixed ds" for f g
    by (rule nth_equalityI) simp_all
  with Pair show ?thesis
    by (simp add: apply_cheap_all_different_def Let_def)
qed

lemma propagate_filters_fixed [simp]:
  "map d_fixed (snd (propagate_filters env params m ds cur)) = map d_fixed ds"
proof -
  obtain ok1 ds1 where a: "propagate_simple_constraints params m ds cur = (ok1, ds1)"
    by (cases "propagate_simple_constraints params m ds cur")
  then have f1: "map d_fixed ds1 = map d_fixed ds"
    using propagate_simple_constraints_fixed [of params m ds cur] by simp
  obtain ok2 ds2 where b: "propagate_less_thans m ds1 = (ok2, ds2)"
    by (cases "propagate_less_thans m ds1")
  then have f2: "map d_fixed ds2 = map d_fixed ds1"
    using propagate_less_thans_fixed [of m ds1] by simp
  have f3: "map d_fixed (snd (apply_cheap_all_different env m x)) = map d_fixed x" for x
    by simp
  show ?thesis
    unfolding propagate_filters_def a
    by (cases ok1; cases ok2) (simp_all add: b f1 f2 f3)
qed

lemma find_unit_domain_Some:
  "find_unit_domain ds = Some i \<Longrightarrow> i < length ds \<and> \<not> d_fixed (ds ! i) \<and> d_count (ds ! i) = 1"
  by (induction ds arbitrary: i) (auto split: if_splits)

lemma propagate_unit_fixed:
  "map d_fixed (fst (snd (propagate_unit env params m i ds trail s))) = (map d_fixed ds)[i := True]"
proof -
  let ?cur = "unit_assignment (ds ! i)"
  let ?ds1 = "ds[i := (ds ! i)\<lparr>d_fixed := True\<rparr>]"
  let ?trail = "trail @ [\<lparr>assignment = ?cur, is_decision = False,
                          discrepancy_count = -1, choice_count = -1\<rparr>]"
  have upd: "map d_fixed ?ds1 = (map d_fixed ds)[i := True]"
    by (simp add: map_update)
  obtain ds2 s' where w: "propagate_watches env params ?cur ?trail ?ds1 s = (ds2, s')"
    by (cases "propagate_watches env params ?cur ?trail ?ds1 s")
  then have f2: "map d_fixed ds2 = map d_fixed ?ds1"
    using propagate_watches_fixed [of env params ?cur ?trail ?ds1 s] by simp
  obtain ok ds3 where f: "propagate_filters env params m ds2 ?cur = (ok, ds3)"
    by (cases "propagate_filters env params m ds2 ?cur")
  then have f3: "map d_fixed ds3 = map d_fixed ds2"
    using propagate_filters_fixed [of env params m ds2 ?cur] by simp
  show ?thesis
    by (simp add: propagate_unit_def Let_def w f f3 f2 upd)
qed

lemma unfixed_decreases:
  "i < length bs \<Longrightarrow> \<not> bs ! i \<Longrightarrow> length (filter Not (bs[i := True])) < length (filter Not bs)"
proof (induction bs arbitrary: i)
  case Nil
  then show ?case by simp
next
  case (Cons b bs)
  show ?case
  proof (cases i)
    case 0
    with Cons.prems show ?thesis by (simp add: le_imp_less_Suc)
  next
    case (Suc j)
    with Cons.prems Cons.IH [of j] show ?thesis by simp
  qed
qed

definition unfixed :: "Domains \<Rightarrow> nat" where
  "unfixed ds = length (filter Not (map d_fixed ds))"

lemma propagate_unit_unfixed:
  assumes "find_unit_domain ds = Some i"
  shows "unfixed (fst (snd (propagate_unit env params m i ds trail s))) < unfixed ds"
  using find_unit_domain_Some [OF assms] unfixed_decreases [of i "map d_fixed ds"]
  by (simp add: unfixed_def propagate_unit_fixed)

text \<open>
  The loop of \<^verbatim>\<open>propagate\<close>: whilst there is a unit domain, run a round. Each round
  fixes a domain, so the loop ends.
\<close>

function propagate_loop ::
  "'w Collaborators \<Rightarrow> HomomorphismParams \<Rightarrow> HomomorphismModel \<Rightarrow> Domains
    \<Rightarrow> HomomorphismAssignments \<Rightarrow> 'w \<Rightarrow> bool \<times> Domains \<times> HomomorphismAssignments \<times> 'w" where
  "propagate_loop env params m new_domains assignments s =
     (case find_unit_domain new_domains of
        None \<Rightarrow> (True, new_domains, assignments, s)
      | Some i \<Rightarrow>
          (case propagate_unit env params m i new_domains assignments s of
             (False, r) \<Rightarrow> (False, r)
           | (True, ds, assignments', s') \<Rightarrow> propagate_loop env params m ds assignments' s'))"
  by pat_completeness auto
termination
proof (relation "measure (\<lambda>(env, params, m, ds, trail, s). unfixed ds)", goal_cases)
  case 1
  show ?case by simp
next
  case (2 env params m new_domains assignments s i ok r ds rest assignments' s')
  from 2(2,4) have "ds = fst (snd (propagate_unit env params m i new_domains assignments s))"
    by (metis fst_conv snd_conv)
  with propagate_unit_unfixed [OF 2(1), of env params m assignments s] 2(4)
  show ?case by auto
qed

declare propagate_loop.simps [simp del]

text \<open>
  The deletion function that \<^verbatim>\<open>propagate\<close> hands to the lackey captures the domains
  and the flag \<^verbatim>\<open>wipeout\<close> by reference: the model passes both in and out. (The counter
  \<^verbatim>\<open>dcount\<close> is written and never read; it is left out.) \<open>deletion_scan\<close> is the loop
  over the domains, which ends at the first domain of pattern vertex \<open>p\<close>; it answers
  whether the value was removed, whether that was a wipeout, and the domains.
  \<^verbatim>\<open>--d.count\<close> is a decrement of an \<^verbatim>\<open>unsigned\<close>.
\<close>

definition dec_unsigned :: "nat \<Rightarrow> nat" where
  "dec_unsigned c = (if c = 0 then 2 ^ 32 - 1 else c - 1)"

fun deletion_scan :: "nat \<Rightarrow> nat \<Rightarrow> Domains \<Rightarrow> bool \<times> bool \<times> Domains" where
  "deletion_scan p t [] = (False, False, [])"
| "deletion_scan p t (d # new_domains) =
     (if d_v d = p then
        (if test (d_values d) t then
           (True, dec_unsigned (d_count d) = 0,
            d\<lparr>d_values := reset t (d_values d), d_count := dec_unsigned (d_count d)\<rparr> # new_domains)
         else (False, False, d # new_domains))
      else
        (case deletion_scan p t new_domains of
           (removed, w, rest) \<Rightarrow> (removed, w, d # rest)))"

definition deletion :: "nat \<Rightarrow> nat \<Rightarrow> Domains \<times> bool \<Rightarrow> bool \<times> (Domains \<times> bool)" where
  "deletion p t st =
     (case st of
        (new_domains, wipeout) \<Rightarrow>
          if \<not> wipeout then
            (case deletion_scan p t new_domains of
               (removed, w, ds) \<Rightarrow> (removed, (ds, w)))
          else (False, (new_domains, wipeout)))"

primrec run_lackey :: "'w lackey_run \<Rightarrow> Domains \<times> bool \<Rightarrow> bool \<times> 'w \<times> (Domains \<times> bool)" where
  "run_lackey (Answer b s) = (\<lambda>st. (b, s, st))"
| "run_lackey (Delete p t k) =
     (\<lambda>st. case deletion p t st of (removed, st') \<Rightarrow> run_lackey (k removed) st')"

text \<open>\<^verbatim>\<open>emplace\<close> on a \<^verbatim>\<open>std::map\<close> keeps the value of a key that is already present.\<close>

definition emplace :: "nat \<Rightarrow> nat \<Rightarrow> VertexToVertexMapping \<Rightarrow> VertexToVertexMapping" where
  "emplace k x mapping = (if mapping k = None then mapping(k \<mapsto> x) else mapping)"

definition expand_to_full_result ::
  "HomomorphismAssignments \<Rightarrow> VertexToVertexMapping \<Rightarrow> VertexToVertexMapping" where
  "expand_to_full_result assignments mapping =
     foldl (\<lambda>mp a. emplace (pattern_vertex (assignment a)) (target_vertex (assignment a)) mp)
       mapping assignments"

text \<open>
  \<^verbatim>\<open>propagate\<close>. The parameter \<^verbatim>\<open>propagate_using_lackey\<close> carries a prime, the name
  being a field of the parameters.
\<close>

definition propagate ::
  "'w Collaborators \<Rightarrow> HomomorphismParams \<Rightarrow> HomomorphismModel \<Rightarrow> Domains
    \<Rightarrow> HomomorphismAssignments \<Rightarrow> bool \<Rightarrow> 'w
    \<Rightarrow> bool \<times> Domains \<times> HomomorphismAssignments \<times> 'w" where
  "propagate env params m new_domains assignments propagate_using_lackey' s =
     (case propagate_loop env params m new_domains assignments s of
        (False, r) \<Rightarrow> (False, r)
      | (True, ds, assignments', s1) \<Rightarrow>
          if lackey params \<and> (propagate_using_lackey' \<or> send_partials_to_lackey params) then
            (let mapping = expand_to_full_result assignments' Map.empty
             in if propagate_using_lackey' then
                  (case run_lackey (check_solution_deleting env mapping True False s1) (ds, False) of
                     (answer, s2, ds', wipeout) \<Rightarrow>
                       (\<not> (\<not> answer \<or> wipeout), ds', assignments', s2))
                else
                  (case check_solution env mapping True False s1 of
                     (answer, s2) \<Rightarrow> (answer, ds, assignments', s2)))
          else (True, ds, assignments', s1))"

section \<open>The search\<close>

text \<open>
  The counters \<^verbatim>\<open>nodes\<close>, \<^verbatim>\<open>propagations\<close> and \<^verbatim>\<open>solution_count\<close>, which the
  source takes by reference, travel with the collaborators' state.
\<close>

record 'w SearchState =
  nodes :: nat
  propagations :: nat
  solution_count :: int
  world :: 'w

definition post_nogood ::
  "'w Collaborators \<Rightarrow> HomomorphismParams \<Rightarrow> HomomorphismAssignments \<Rightarrow> 'w \<Rightarrow> 'w" where
  "post_nogood env params assignments s =
     (if \<not> might_have_watches params then s
      else watches_post_nogood env (map assignment (filter is_decision assignments)) s)"

text \<open>
  The difference \<^verbatim>\<open>pattern_size - pattern_link_count\<close> is taken in \<^verbatim>\<open>unsigned\<close>
  arithmetic: it wraps around when the link count is the larger.
\<close>

definition minus_unsigned :: "nat \<Rightarrow> nat \<Rightarrow> nat" where
  "minus_unsigned x y = (x mod 2 ^ 32 + 2 ^ 32 - y mod 2 ^ 32) mod 2 ^ 32"

definition post_solution_nogood ::
  "'w Collaborators \<Rightarrow> HomomorphismModel \<Rightarrow> HomomorphismAssignments \<Rightarrow> 'w \<Rightarrow> 'w" where
  "post_solution_nogood env m assignments s =
     watches_post_nogood env
       (map assignment
          (filter (\<lambda>a. is_decision a
                       \<and> pattern_vertex (assignment a)
                           < minus_unsigned (pattern_size m) (pattern_link_count m))
             assignments)) s"

fun copy_nonfixed_domains_and_make_assignment :: "Domains \<Rightarrow> nat \<Rightarrow> nat \<Rightarrow> Domains" where
  "copy_nonfixed_domains_and_make_assignment [] branch_v f_v = []"
| "copy_nonfixed_domains_and_make_assignment (d # domains) branch_v f_v =
     (if d_fixed d then copy_nonfixed_domains_and_make_assignment domains branch_v f_v
      else
        (if d_v d = branch_v then d\<lparr>d_values := {|f_v|}, d_count := 1\<rparr> else d)
          # copy_nonfixed_domains_and_make_assignment domains branch_v f_v)"

text \<open>
  \<^verbatim>\<open>resize\<close> of a vector cuts it to the given length, or fills it up to that length
  with value-initialised entries.
\<close>

definition resize :: "nat \<Rightarrow> HomomorphismAssignments \<Rightarrow> HomomorphismAssignments" where
  "resize n assignments =
     take n assignments @
       replicate (n - length assignments)
         \<lparr>assignment = \<lparr>pattern_vertex = 0, target_vertex = 0\<rparr>, is_decision = False,
          discrepancy_count = 0, choice_count = 0\<rparr>"

text \<open>The loop that pulls the set bits out of \<^verbatim>\<open>remaining\<close> into \<^verbatim>\<open>branch_v\<close>.\<close>

function branch_values :: "bitset \<Rightarrow> nat list" where
  "branch_values remaining =
     (case find_first remaining of
        None \<Rightarrow> []
      | Some f_v \<Rightarrow> f_v # branch_values (reset f_v remaining))"
  by pat_completeness auto
termination
  by (relation "measure fcard") (auto simp: fcard_reset_find_first)

declare branch_values.simps [simp del]

text \<open>The switch on the value ordering heuristic.\<close>

definition order_values ::
  "'w Collaborators \<Rightarrow> HomomorphismParams \<Rightarrow> HomomorphismModel \<Rightarrow> nat list \<Rightarrow> 'w
    \<Rightarrow> (nat list \<times> 'w) option" where
  "order_values env params m branch_v s =
     (case value_ordering_heuristic params of
        Degree \<Rightarrow> Some (degree_sort m branch_v False, s)
      | AntiDegree \<Rightarrow> Some (degree_sort m branch_v True, s)
      | Biased \<Rightarrow> softmax_shuffle env m branch_v s
      | Random \<Rightarrow> Some (shuffle env branch_v s))"

text \<open>What \<^verbatim>\<open>restarting_search\<close> does when there is no branch domain.\<close>

definition handle_solution ::
  "'w Collaborators \<Rightarrow> HomomorphismParams \<Rightarrow> HomomorphismModel \<Rightarrow> HomomorphismAssignments
    \<Rightarrow> 'w SearchState \<Rightarrow> SearchResult \<times> HomomorphismAssignments \<times> 'w SearchState" where
  "handle_solution env params m assignments s =
     (let mapping = expand_to_full_result assignments Map.empty
      in if bigraph params \<and> \<not> check_extra_bigraph_constraints m mapping then
           (Unsatisfiable, assignments,
            s\<lparr>world := post_solution_nogood env m assignments (world s)\<rparr>)
         else
           (case (if lackey params
                  then check_solution env mapping False (count_solutions params) (world s)
                  else (True, world s)) of
              (False, w1) \<Rightarrow>
                (if propagate_using_lackey params = RootAndBackjump
                 then UnsatisfiableAndBackjumpUsingLackey else Unsatisfiable,
                 assignments, s\<lparr>world := w1\<rparr>)
            | (True, w1) \<Rightarrow>
                if count_solutions params then
                  (let w2 = (if bigraph params then post_solution_nogood env m assignments w1
                             else w1);
                       w3 = (if enumerate_callback params then enumerate_solution env mapping w2
                             else w2)
                   in (SatisfiableButKeepGoing, assignments,
                       s\<lparr>solution_count := solution_count s + 1, world := w3\<rparr>))
                else (Satisfiable, assignments, s\<lparr>world := w1\<rparr>)))"

text \<open>
  The loop over the candidates. Its variables are the three locals declared before it,
  the trail and the state; the iterator \<^verbatim>\<open>f_v\<close> is the position \<open>k\<close> in \<open>branch_v\<close>.
  One pass through the body either goes on to the next candidate with new variables
  (\<open>Next\<close>; this is both the \<^verbatim>\<open>continue\<close> and the fall out of the \<^verbatim>\<open>switch\<close>) or
  leaves the function (\<open>Return\<close>). The recursive call is the argument \<open>child\<close>;
  it has no result when the recursion bound of \<open>restarting_search\<close> below is used up.
\<close>

record 'w LoopVars =
  loop_discrepancy_count :: int
  loop_actually_hit_a_failure :: bool
  loop_use_lackey_for_propagation :: bool
  loop_assignments :: HomomorphismAssignments
  loop_state :: "'w SearchState"

datatype 'w LoopStep =
  Next "'w LoopVars"
  | Return "SearchResult \<times> HomomorphismAssignments \<times> 'w SearchState"

type_synonym 'w Search =
  "HomomorphismAssignments \<Rightarrow> Domains \<Rightarrow> 'w SearchState
    \<Rightarrow> (SearchResult \<times> HomomorphismAssignments \<times> 'w SearchState) option"

text \<open>The trail entry that the body pushes for the candidate at position \<open>k\<close>.\<close>

definition decision ::
  "nat \<Rightarrow> nat list \<Rightarrow> nat \<Rightarrow> int \<Rightarrow> HomomorphismAssignmentInformation" where
  "decision v branch_v k discrepancy =
     \<lparr>assignment = \<lparr>pattern_vertex = v, target_vertex = branch_v ! k\<rparr>, is_decision = True,
      discrepancy_count = discrepancy, choice_count = int (length branch_v)\<rparr>"

text \<open>
  On \<^verbatim>\<open>Restart\<close>: for each candidate before position \<open>k\<close>, push a marker decision,
  post the nogood of the trail, pop.
\<close>

definition post_nogoods_for_tried ::
  "'w Collaborators \<Rightarrow> HomomorphismParams \<Rightarrow> nat \<Rightarrow> nat list
    \<Rightarrow> HomomorphismAssignments \<times> 'w \<Rightarrow> HomomorphismAssignments \<times> 'w" where
  "post_nogoods_for_tried env params v tried st =
     foldl (\<lambda>(assignments, w) l.
              (let pushed =
                     assignments @
                       [\<lparr>assignment = \<lparr>pattern_vertex = v, target_vertex = l\<rparr>,
                         is_decision = True, discrepancy_count = -2, choice_count = -2\<rparr>]
               in (butlast pushed, post_nogood env params pushed w)))
       st tried"

definition try_value ::
  "'w Search \<Rightarrow> 'w Collaborators \<Rightarrow> HomomorphismParams \<Rightarrow> HomomorphismModel \<Rightarrow> Domains
    \<Rightarrow> nat \<Rightarrow> nat list \<Rightarrow> nat \<Rightarrow> 'w LoopVars \<Rightarrow> 'w LoopStep option" where
  "try_value child env params m domains v branch_v k vars =
     (let assignments = loop_assignments vars;
          s = loop_state vars;
          assignments_size = length assignments;
          pushed = assignments @ [decision v branch_v k (loop_discrepancy_count vars)];
          new_domains = copy_nonfixed_domains_and_make_assignment domains v (branch_v ! k);
          s1 = s\<lparr>propagations := propagations s + 1\<rparr>
      in case propagate env params m new_domains pushed
                (loop_use_lackey_for_propagation vars \<or> propagate_using_lackey params = Always)
                (world s1) of
           (False, ds, assignments2, w2) \<Rightarrow>
             Some (Next (vars\<lparr>loop_actually_hit_a_failure := True,
                               loop_assignments := resize assignments_size assignments2,
                               loop_state := s1\<lparr>world := w2\<rparr>\<rparr>))
         | (True, ds, assignments2, w2) \<Rightarrow>
             (case child assignments2 ds (s1\<lparr>world := w2\<rparr>) of
                None \<Rightarrow> None
              | Some (search_result, assignments3, s3) \<Rightarrow>
                  (case search_result of
                     Satisfiable \<Rightarrow> Some (Return (Satisfiable, assignments3, s3))
                   | Aborted \<Rightarrow> Some (Return (Aborted, assignments3, s3))
                   | Restart \<Rightarrow>
                       (case post_nogoods_for_tried env params v (take k branch_v)
                               (resize assignments_size assignments3, world s3) of
                          (assignments4, w4) \<Rightarrow>
                            Some (Return (Restart, assignments4, s3\<lparr>world := w4\<rparr>)))
                   | SatisfiableButKeepGoing \<Rightarrow>
                       Some (Next (vars\<lparr>loop_discrepancy_count := loop_discrepancy_count vars + 1,
                                         loop_assignments := resize assignments_size assignments3,
                                         loop_state := s3\<rparr>))
                   | UnsatisfiableAndBackjumpUsingLackey \<Rightarrow>
                       Some (Next (vars\<lparr>loop_discrepancy_count := loop_discrepancy_count vars + 1,
                                         loop_actually_hit_a_failure := True,
                                         loop_use_lackey_for_propagation := True,
                                         loop_assignments := resize assignments_size assignments3,
                                         loop_state := s3\<rparr>))
                   | Unsatisfiable \<Rightarrow>
                       Some (Next (vars\<lparr>loop_discrepancy_count := loop_discrepancy_count vars + 1,
                                         loop_actually_hit_a_failure := True,
                                         loop_assignments := resize assignments_size assignments3,
                                         loop_state := s3\<rparr>)))))"

fun for_each_value ::
  "(nat \<Rightarrow> 'w LoopVars \<Rightarrow> 'w LoopStep option) \<Rightarrow> nat list \<Rightarrow> 'w LoopVars \<Rightarrow> 'w LoopStep option" where
  "for_each_value body [] vars = Some (Next vars)"
| "for_each_value body (k # ks) vars =
     (case body k vars of
        None \<Rightarrow> None
      | Some (Return r) \<Rightarrow> Some (Return r)
      | Some (Next vars') \<Rightarrow> for_each_value body ks vars')"

text \<open>After the loop: no values remaining, backtrack, or possibly kick off a restart.\<close>

definition out_of_values ::
  "'w Collaborators \<Rightarrow> HomomorphismParams \<Rightarrow> 'w LoopVars
    \<Rightarrow> SearchResult \<times> HomomorphismAssignments \<times> 'w SearchState" where
  "out_of_values env params vars =
     (let s = loop_state vars;
          assignments = loop_assignments vars;
          w1 = (if loop_actually_hit_a_failure vars then did_a_backtrack env (world s) else world s)
      in case should_restart env w1 of
           (True, w2) \<Rightarrow> (Restart, assignments, s\<lparr>world := post_nogood env params assignments w2\<rparr>)
         | (False, w2) \<Rightarrow>
             (if loop_use_lackey_for_propagation vars then UnsatisfiableAndBackjumpUsingLackey
              else Unsatisfiable,
              assignments, s\<lparr>world := w2\<rparr>))"

definition search_values ::
  "'w Search \<Rightarrow> 'w Collaborators \<Rightarrow> HomomorphismParams \<Rightarrow> HomomorphismModel \<Rightarrow> Domains
    \<Rightarrow> nat \<Rightarrow> nat list \<Rightarrow> HomomorphismAssignments \<Rightarrow> 'w SearchState
    \<Rightarrow> (SearchResult \<times> HomomorphismAssignments \<times> 'w SearchState) option" where
  "search_values child env params m domains v branch_v assignments s =
     (case for_each_value (try_value child env params m domains v branch_v)
             [0..<length branch_v]
             \<lparr>loop_discrepancy_count = 0, loop_actually_hit_a_failure = False,
              loop_use_lackey_for_propagation = False, loop_assignments = assignments,
              loop_state = s\<rparr> of
        None \<Rightarrow> None
      | Some (Return r) \<Rightarrow> Some r
      | Some (Next vars) \<Rightarrow> Some (out_of_values env params vars))"

text \<open>
  \<^verbatim>\<open>restarting_search\<close>. The first argument bounds the depth of the recursion; the
  result is \<^term>\<open>None\<close> when the bound is used up, or when the value ordering has no
  defined result. \<^verbatim>\<open>depth\<close> only feeds the proof logger.
\<close>

primrec restarting_search ::
  "nat \<Rightarrow> 'w Collaborators \<Rightarrow> HomomorphismParams \<Rightarrow> HomomorphismModel
    \<Rightarrow> HomomorphismAssignments \<Rightarrow> Domains \<Rightarrow> 'w SearchState \<Rightarrow> int
    \<Rightarrow> (SearchResult \<times> HomomorphismAssignments \<times> 'w SearchState) option" where
  "restarting_search 0 = (\<lambda>env params m assignments domains s depth. None)"
| "restarting_search (Suc fuel) =
     (\<lambda>env params m assignments domains s depth.
        case should_abort env (world s) of
          (True, w) \<Rightarrow> Some (Aborted, assignments, s\<lparr>world := w\<rparr>)
        | (False, w) \<Rightarrow>
            (let s1 = s\<lparr>nodes := nodes s + 1, world := w\<rparr>
             in case find_branch_domain m domains of
                  None \<Rightarrow> Some (handle_solution env params m assignments s1)
                | Some i \<Rightarrow>
                    (let branch_domain = domains ! i
                     in case order_values env params m
                               (branch_values (d_values branch_domain)) (world s1) of
                          None \<Rightarrow> None
                        | Some (branch_v, w1) \<Rightarrow>
                            search_values
                              (\<lambda>a ds s'. restarting_search fuel env params m a ds s' (depth + 1))
                              env params m domains (d_v branch_domain) branch_v assignments
                              (s1\<lparr>world := w1\<rparr>))))"

section \<open>Instances for evaluation\<close>

text \<open>
  A model with no edges, no labels and no constraints, and parameters with every option
  off; the instances below change the fields they need.
\<close>

definition plain_model :: HomomorphismModel where
  "plain_model =
     \<lparr>pattern_size = 0, target_size = 0, max_graphs = 1, pattern_link_count = 0,
      pattern_degree = (\<lambda>g x. 0), target_degree = (\<lambda>g x. 0), largest_target_degree = 0,
      pattern_graph_row = (\<lambda>g x. {||}), target_graph_row = (\<lambda>g x. {||}),
      forward_target_graph_row = (\<lambda>x. {||}), reverse_target_graph_row = (\<lambda>x. {||}),
      pattern_adjacency_bits = (\<lambda>x y. 0), directed = False, has_edge_labels = False,
      pattern_edge_label = (\<lambda>x y. 0), target_edge_label = (\<lambda>x y. 0), has_less_thans = False,
      pattern_less_thans_in_convenient_order = [],
      check_extra_bigraph_constraints = (\<lambda>mapping. True)\<rparr>"

definition plain_params :: HomomorphismParams where
  "plain_params =
     \<lparr>injectivity = NonInjective, induced = False, bigraph = False, count_solutions = False,
      value_ordering_heuristic = Degree, propagate_using_lackey = Never,
      send_partials_to_lackey = False, lackey = False, enumerate_callback = False,
      might_have_watches = False\<rparr>"

definition domain_of :: "nat \<Rightarrow> nat list \<Rightarrow> bool \<Rightarrow> HomomorphismDomain" where
  "domain_of x vals fixed =
     \<lparr>d_v = x, d_values = fset_of_list vals, d_count = length vals, d_fixed = fixed\<rparr>"

text \<open>
  Four domains: the first is fixed, the other three have two values each; the pattern
  vertices 2 and 3 have degree 2, the others degree 1.
\<close>

definition branching_model :: HomomorphismModel where
  "branching_model = plain_model\<lparr>pattern_degree := (\<lambda>g x. if x = 2 \<or> x = 3 then 2 else 1)\<rparr>"

definition branching_domains :: Domains where
  "branching_domains =
     [domain_of 0 [0] True, domain_of 1 [0, 1] False, domain_of 2 [1, 2] False,
      domain_of 3 [0, 2] False]"

text \<open>
  Collaborators that follow a script. Their state counts the calls of \<^verbatim>\<open>should_abort\<close>
  (one per search node) and keeps the nogoods posted to the watches. The timeout aborts
  from call \<open>abort_at\<close> on (counting from 0), the restarts schedule asks for a restart
  once \<open>restart_at\<close> nodes have been entered; the lackey accepts everything and no
  nogood ever becomes unit.
\<close>

record ExampleWorld =
  ticks :: nat
  posted :: "HomomorphismAssignment list list"

definition scripted :: "nat \<Rightarrow> nat \<Rightarrow> ExampleWorld Collaborators" where
  "scripted abort_at restart_at =
     \<lparr>should_abort = (\<lambda>w. (abort_at \<le> ticks w, w\<lparr>ticks := ticks w + 1\<rparr>)),
      did_a_backtrack = (\<lambda>w. w),
      should_restart = (\<lambda>w. (restart_at \<le> ticks w, w)),
      check_solution = (\<lambda>mapping partial count_all w. (True, w)),
      check_solution_deleting = (\<lambda>mapping partial count_all w. Answer True w),
      enumerate_solution = (\<lambda>mapping w. w),
      watches_post_nogood = (\<lambda>nogood w. w\<lparr>posted := posted w @ [nogood]\<rparr>),
      watches_propagate = (\<lambda>a is_unassigned w. ([], w)),
      cheap_all_different = (\<lambda>n ds. (True, \<lambda>i. {||})),
      uniform_int_distribution = (\<lambda>a b w. (a, w)),
      shuffle = (\<lambda>xs w. (xs, w))\<rparr>"

definition start_world :: ExampleWorld where
  "start_world = \<lparr>ticks = 0, posted = []\<rparr>"

definition start_state :: "ExampleWorld SearchState" where
  "start_state = \<lparr>nodes = 0, propagations = 0, solution_count = 0, world = start_world\<rparr>"

text \<open>
  The pattern is one edge between the vertices 0 and 1. The target has the vertices 0, 1
  and 2 and one edge, between 1 and 2. The search is injective and tries the target
  vertices of small degree first: the isolated vertex 0, then 1, then 2.
\<close>

definition edge_model :: HomomorphismModel where
  "edge_model = plain_model
     \<lparr>pattern_size := 2, target_size := 3,
      pattern_degree := (\<lambda>g x. 1),
      target_degree := (\<lambda>g x. if x = 0 then 0 else 1),
      largest_target_degree := 1,
      target_graph_row := (\<lambda>g x. if x = 1 then {|2|} else if x = 2 then {|1|} else {||}),
      pattern_adjacency_bits := (\<lambda>x y. if x \<noteq> y then 1 else 0)\<rparr>"

definition edge_params :: HomomorphismParams where
  "edge_params = plain_params\<lparr>injectivity := Injective, value_ordering_heuristic := AntiDegree\<rparr>"

definition edge_domains :: Domains where
  "edge_domains = [domain_of 0 [0, 1, 2] False, domain_of 1 [0, 1, 2] False]"

text \<open>
  Three pattern vertices without edges, two target vertices, no injectivity: every
  mapping is a solution, and the search counts them.
\<close>

definition free_model :: HomomorphismModel where
  "free_model = plain_model\<lparr>pattern_size := 3, target_size := 2\<rparr>"

definition free_params :: HomomorphismParams where
  "free_params =
     plain_params\<lparr>count_solutions := True, value_ordering_heuristic := AntiDegree,
                   might_have_watches := True\<rparr>"

definition free_domains :: Domains where
  "free_domains = [domain_of 0 [0, 1] False, domain_of 1 [0, 1] False, domain_of 2 [0, 1] False]"

text \<open>
  A frame of the free instance below the root: the pattern vertex 0 is assigned, the
  frame branches on the pattern vertex 1 and has tried the candidate 0.
\<close>

definition restart_vars :: "ExampleWorld LoopVars" where
  "restart_vars =
     \<lparr>loop_discrepancy_count = 1, loop_actually_hit_a_failure = False,
      loop_use_lackey_for_propagation = False,
      loop_assignments =
        [decision 0 [0, 1] 0 0,
         \<lparr>assignment = \<lparr>pattern_vertex = 0, target_vertex = 0\<rparr>, is_decision = False,
          discrepancy_count = -1, choice_count = -1\<rparr>],
      loop_state = start_state\<rparr>"

definition restart_domains :: Domains where
  "restart_domains = [domain_of 1 [0, 1] False, domain_of 2 [0, 1] False]"

text \<open>
  A lackey that, handed a deletion function, asks once for the deletion of the target 0
  from the domain of the pattern vertex 1 and then accepts; and parameters that send
  partial mappings to the lackey without asking it to propagate.
\<close>

definition deleting_lackey :: "ExampleWorld Collaborators" where
  "deleting_lackey =
     (scripted 100 100)
       \<lparr>check_solution_deleting :=
          (\<lambda>mapping partial count_all w. Delete 1 0 (\<lambda>removed. Answer True w))\<rparr>"

definition partials_params :: HomomorphismParams where
  "partials_params = plain_params\<lparr>lackey := True, send_partials_to_lackey := True\<rparr>"

text \<open>
  Two pattern vertices with the constraint that the target of 0 lies below the target
  of 1, over four target vertices.
\<close>

definition ordered_model :: HomomorphismModel where
  "ordered_model =
     plain_model\<lparr>pattern_size := 2, target_size := 4, has_less_thans := True,
                  pattern_less_thans_in_convenient_order := [(0, 1)]\<rparr>"

definition ordered_domains :: Domains where
  "ordered_domains = [domain_of 0 [1, 3] False, domain_of 1 [0, 1, 2, 3] False]"

text \<open>
  A random source whose every draw is the upper end of the range; and a target of
  \<open>2 ^ 18\<close> isolated vertices.
\<close>

definition greedy_rand :: "ExampleWorld Collaborators" where
  "greedy_rand = (scripted 100 100)\<lparr>uniform_int_distribution := (\<lambda>a b w. (b, w))\<rparr>"

definition edgeless_model :: HomomorphismModel where
  "edgeless_model = plain_model\<lparr>target_size := 2 ^ 18\<rparr>"

definition first_vars :: "'w SearchState \<Rightarrow> 'w LoopVars" where
  "first_vars s =
     \<lparr>loop_discrepancy_count = 0, loop_actually_hit_a_failure = False,
      loop_use_lackey_for_propagation = False, loop_assignments = [], loop_state = s\<rparr>"

section \<open>Variable selection: the branch domain\<close>

definition branch_inv :: "HomomorphismModel \<Rightarrow> Domains \<Rightarrow> nat \<Rightarrow> nat option \<Rightarrow> bool" where
  "branch_inv m ds n res =
     ((res = None \<longrightarrow> (\<forall>j<n. d_fixed (ds ! j))) \<and>
      (\<forall>i. res = Some i \<longrightarrow> i < n \<and> \<not> d_fixed (ds ! i) \<and>
         (\<forall>j<n. \<not> d_fixed (ds ! j) \<longrightarrow>
            d_count (ds ! i) \<le> d_count (ds ! j) \<and>
            (d_count (ds ! j) = d_count (ds ! i) \<longrightarrow>
               pattern_degree m 0 (d_v (ds ! j)) \<le> pattern_degree m 0 (d_v (ds ! i)) \<and>
               (pattern_degree m 0 (d_v (ds ! j)) = pattern_degree m 0 (d_v (ds ! i)) \<longrightarrow> i \<le> j)))))"

lemma branch_inv_step:
  assumes "branch_inv m ds n res"
  shows "branch_inv m ds (Suc n) (find_branch_domain_step m ds res n)"
proof (cases res)
  case None
  with assms show ?thesis
    by (auto simp: branch_inv_def find_branch_domain_step_def Let_def less_Suc_eq)
next
  case (Some r)
  with assms show ?thesis
    unfolding branch_inv_def find_branch_domain_step_def Let_def less_Suc_eq
    by (auto; fastforce)
qed

lemma branch_inv_foldl:
  "branch_inv m ds n (foldl (find_branch_domain_step m ds) None [0..<n])"
proof (induction n)
  case 0
  show ?case by (simp add: branch_inv_def)
next
  case (Suc n)
  then show ?case using branch_inv_step by simp
qed

text \<open>
  C6. \<^verbatim>\<open>find_branch_domain\<close> returns null exactly when every domain of the collection
  is fixed. Otherwise it returns a domain that is not fixed and has the smallest count
  among those; among the domains of that count it has the largest pattern degree on
  graph 0; and among the domains tied on both it is the first in collection order.
\<close>

theorem find_branch_domain_selects:
  "(find_branch_domain m domains = None \<longleftrightarrow> (\<forall>d \<in> set domains. d_fixed d)) \<and>
   (\<forall>i. find_branch_domain m domains = Some i \<longrightarrow>
      i < length domains \<and> \<not> d_fixed (domains ! i) \<and>
      (\<forall>j < length domains. \<not> d_fixed (domains ! j) \<longrightarrow>
         d_count (domains ! i) \<le> d_count (domains ! j) \<and>
         (d_count (domains ! j) = d_count (domains ! i) \<longrightarrow>
            pattern_degree m 0 (d_v (domains ! j)) \<le> pattern_degree m 0 (d_v (domains ! i)) \<and>
            (pattern_degree m 0 (d_v (domains ! j)) = pattern_degree m 0 (d_v (domains ! i))
               \<longrightarrow> i \<le> j))))"
proof -
  let ?res = "find_branch_domain m domains"
  have inv: "branch_inv m domains (length domains) ?res"
    unfolding find_branch_domain_def by (rule branch_inv_foldl)
  have none: "?res = None \<longleftrightarrow> (\<forall>d \<in> set domains. d_fixed d)"
  proof
    assume "?res = None"
    with inv have "\<forall>j < length domains. d_fixed (domains ! j)" by (simp add: branch_inv_def)
    then show "\<forall>d \<in> set domains. d_fixed d" by (auto simp: in_set_conv_nth)
  next
    assume all: "\<forall>d \<in> set domains. d_fixed d"
    show "?res = None"
    proof (cases ?res)
      case None
      then show ?thesis .
    next
      case (Some i)
      with inv have "i < length domains" "\<not> d_fixed (domains ! i)"
        by (simp_all add: branch_inv_def)
      with all show ?thesis by auto
    qed
  qed
  from inv none show ?thesis
    unfolding branch_inv_def by blast
qed

theorem find_branch_domain_selects_witness:
  "find_branch_domain branching_model branching_domains = Some 2
   \<and> \<not> d_fixed (branching_domains ! 2)
   \<and> d_count (branching_domains ! 2) \<le> d_count (branching_domains ! 1)
   \<and> pattern_degree branching_model 0 (d_v (branching_domains ! 1))
       \<le> pattern_degree branching_model 0 (d_v (branching_domains ! 2))
   \<and> pattern_degree branching_model 0 (d_v (branching_domains ! 3))
       = pattern_degree branching_model 0 (d_v (branching_domains ! 2))
   \<and> find_branch_domain branching_model [domain_of 0 [0] True] = None"
proof -
  have sel: "find_branch_domain branching_model branching_domains = Some 2"
    by (simp add: find_branch_domain_def find_branch_domain_step_def branching_domains_def
        branching_model_def plain_model_def domain_of_def upt_rec)
  have one: "\<forall>d \<in> set [domain_of 0 [0] True]. d_fixed d"
    by (simp add: domain_of_def)
  have j: "1 < length branching_domains" "\<not> d_fixed (branching_domains ! 1)"
    by (simp_all add: branching_domains_def domain_of_def)
  from find_branch_domain_selects [of branching_model branching_domains] sel
  have nf: "\<not> d_fixed (branching_domains ! 2)"
    and best: "\<And>j. j < length branching_domains \<Longrightarrow> \<not> d_fixed (branching_domains ! j) \<Longrightarrow>
      d_count (branching_domains ! 2) \<le> d_count (branching_domains ! j) \<and>
      (d_count (branching_domains ! j) = d_count (branching_domains ! 2) \<longrightarrow>
         pattern_degree branching_model 0 (d_v (branching_domains ! j))
           \<le> pattern_degree branching_model 0 (d_v (branching_domains ! 2)))"
    by blast+
  have "d_count (branching_domains ! 1) = d_count (branching_domains ! 2)"
    by (simp add: branching_domains_def domain_of_def)
  with best [OF j] nf
  have "\<not> d_fixed (branching_domains ! 2)
        \<and> d_count (branching_domains ! 2) \<le> d_count (branching_domains ! 1)
        \<and> pattern_degree branching_model 0 (d_v (branching_domains ! 1))
            \<le> pattern_degree branching_model 0 (d_v (branching_domains ! 2))"
    by simp
  moreover have "pattern_degree branching_model 0 (d_v (branching_domains ! 3))
       = pattern_degree branching_model 0 (d_v (branching_domains ! 2))"
    by (simp add: branching_domains_def branching_model_def plain_model_def domain_of_def)
  moreover from find_branch_domain_selects [of branching_model "[domain_of 0 [0] True]"] one
  have "find_branch_domain branching_model [domain_of 0 [0] True] = None"
    by blast
  ultimately show ?thesis using sel by simp
qed

section \<open>The trail under propagation\<close>

lemma unfixed_removes:
  "i < length bs \<Longrightarrow> \<not> bs ! i \<Longrightarrow> Suc (length (filter Not (bs[i := True]))) = length (filter Not bs)"
proof (induction bs arbitrary: i)
  case Nil
  then show ?case by simp
next
  case (Cons b bs)
  show ?case
  proof (cases i)
    case 0
    with Cons.prems show ?thesis by simp
  next
    case (Suc j)
    with Cons.prems Cons.IH [of j] show ?thesis by simp
  qed
qed

definition unit_entry :: "HomomorphismAssignmentInformation \<Rightarrow> bool" where
  "unit_entry e = (\<not> is_decision e \<and> discrepancy_count e = -1 \<and> choice_count e = -1)"

lemma propagate_unit_trail:
  "fst (snd (snd (propagate_unit env params m i ds trail s))) =
     trail @ [\<lparr>assignment = unit_assignment (ds ! i), is_decision = False,
               discrepancy_count = -1, choice_count = -1\<rparr>]"
  by (simp add: propagate_unit_def Let_def split: prod.splits)

lemma propagate_loop_trail:
  "propagate_loop env params m ds trail s = (ok, ds', trail', s') \<Longrightarrow>
     \<exists>pushed. trail' = trail @ pushed \<and> (\<forall>e \<in> set pushed. unit_entry e)
        \<and> length pushed + unfixed ds' = unfixed ds"
proof (induction env params m ds trail s rule: propagate_loop.induct)
  case (1 env params m new_domains assignments s)
  show ?case
  proof (cases "find_unit_domain new_domains")
    case None
    with "1.prems" show ?thesis
      by (simp add: propagate_loop.simps [of env params m new_domains])
  next
    case (Some i)
    obtain ok1 ds1 trail1 s1
      where pu: "propagate_unit env params m i new_domains assignments s = (ok1, ds1, trail1, s1)"
      by (cases "propagate_unit env params m i new_domains assignments s")
    let ?e = "\<lparr>assignment = unit_assignment (new_domains ! i), is_decision = False,
               discrepancy_count = -1, choice_count = -1\<rparr>"
    have t1: "trail1 = assignments @ [?e]"
      using propagate_unit_trail [of env params m i new_domains assignments s] pu by simp
    have f1: "map d_fixed ds1 = (map d_fixed new_domains)[i := True]"
      using propagate_unit_fixed [of env params m i new_domains assignments s] pu by simp
    have u1: "Suc (unfixed ds1) = unfixed new_domains"
      using f1 find_unit_domain_Some [OF Some] unfixed_removes [of i "map d_fixed new_domains"]
      by (simp add: unfixed_def)
    show ?thesis
    proof (cases ok1)
      case False
      with Some pu "1.prems" have "ds' = ds1" "trail' = trail1"
        by (simp_all add: propagate_loop.simps [of env params m new_domains])
      with t1 u1 show ?thesis by (simp add: unit_entry_def)
    next
      case True
      with Some pu "1.prems"
      have "propagate_loop env params m ds1 trail1 s1 = (ok, ds', trail', s')"
        by (simp add: propagate_loop.simps [of env params m new_domains])
      moreover from True have "ok1 = True" by simp
      ultimately have "\<exists>pushed. trail' = trail1 @ pushed \<and> (\<forall>e\<in>set pushed. unit_entry e)
         \<and> length pushed + unfixed ds' = unfixed ds1"
        using "1.IH" [OF Some pu [symmetric] _ refl refl] by blast
      then obtain pushed where "trail' = trail1 @ pushed" "\<forall>e\<in>set pushed. unit_entry e"
         "length pushed + unfixed ds' = unfixed ds1" by blast
      with t1 u1 show ?thesis
        by (intro exI [of _ "?e # pushed"]) (simp add: unit_entry_def)
    qed
  qed
qed

lemma deletion_scan_fixed [simp]:
  "map d_fixed (snd (snd (deletion_scan p t ds))) = map d_fixed ds"
  by (induction ds) (auto split: prod.splits)

lemma deletion_fixed [simp]:
  "map d_fixed (fst (snd (deletion p t (ds, w)))) = map d_fixed ds"
proof (cases "deletion_scan p t ds")
  case (fields removed w' ds')
  with deletion_scan_fixed [of p t ds] show ?thesis
    by (simp add: deletion_def)
qed

lemma run_lackey_fixed:
  "map d_fixed (fst (snd (snd (run_lackey r (ds, w))))) = map d_fixed ds"
proof (induction r arbitrary: ds w)
  case (Answer b s)
  show ?case by simp
next
  case (Delete p t k)
  obtain removed ds' w' where d: "deletion p t (ds, w) = (removed, ds', w')"
    by (cases "deletion p t (ds, w)") auto
  with deletion_fixed [of p t ds w] have "map d_fixed ds' = map d_fixed ds" by simp
  with Delete [of "k removed" ds' w'] d show ?case by simp
qed

lemma propagate_trail:
  assumes "propagate env params m ds trail pul s = (ok, ds', trail', s')"
  shows "\<exists>pushed. trail' = trail @ pushed \<and> (\<forall>e \<in> set pushed. unit_entry e)
        \<and> length pushed + unfixed ds' = unfixed ds"
proof -
  obtain ok1 ds1 trail1 s1
    where l: "propagate_loop env params m ds trail s = (ok1, ds1, trail1, s1)"
    by (cases "propagate_loop env params m ds trail s")
  from propagate_loop_trail [OF l]
  obtain pushed where p: "trail1 = trail @ pushed" "\<forall>e\<in>set pushed. unit_entry e"
    "length pushed + unfixed ds1 = unfixed ds" by blast
  have "trail' = trail1 \<and> map d_fixed ds' = map d_fixed ds1"
  proof (cases "ok1 \<and> lackey params \<and> pul")
    case False
    with assms l show ?thesis
      by (auto simp: propagate_def Let_def split: if_splits prod.splits bool.splits)
  next
    case True
    let ?r = "check_solution_deleting env (expand_to_full_result trail1 Map.empty) True False s1"
    obtain a s2 ds2 w2 where r: "run_lackey ?r (ds1, False) = (a, s2, ds2, w2)"
      by (cases "run_lackey ?r (ds1, False)") auto
    with run_lackey_fixed [of ?r ds1 False] have "map d_fixed ds2 = map d_fixed ds1" by simp
    with True assms l r show ?thesis
      by (simp add: propagate_def Let_def)
  qed
  with p show ?thesis by (auto simp: unfixed_def)
qed

lemma resize_append [simp]: "resize (length xs) (xs @ ys) = xs"
  by (simp add: resize_def)

lemma try_value_failed_propagation:
  assumes "fst (propagate env params m
              (copy_nonfixed_domains_and_make_assignment domains v (branch_v ! k))
              (loop_assignments vars @ [decision v branch_v k (loop_discrepancy_count vars)])
              (loop_use_lackey_for_propagation vars \<or> propagate_using_lackey params = Always)
              (world (loop_state vars))) = False"
  shows "\<exists>vars'. try_value child env params m domains v branch_v k vars = Some (Next vars')
           \<and> loop_assignments vars' = loop_assignments vars
           \<and> loop_discrepancy_count vars' = loop_discrepancy_count vars
           \<and> loop_actually_hit_a_failure vars'"
proof -
  let ?p = "propagate env params m
              (copy_nonfixed_domains_and_make_assignment domains v (branch_v ! k))
              (loop_assignments vars @ [decision v branch_v k (loop_discrepancy_count vars)])
              (loop_use_lackey_for_propagation vars \<or> propagate_using_lackey params = Always)
              (world (loop_state vars))"
  obtain ok ds trail2 w2 where p: "?p = (ok, ds, trail2, w2)" by (cases ?p)
  with assms have ok: "ok = False" by simp
  from propagate_trail [OF p] obtain pushed where
    "trail2 = (loop_assignments vars @ [decision v branch_v k (loop_discrepancy_count vars)]) @ pushed"
    by blast
  then have "resize (length (loop_assignments vars)) trail2 = loop_assignments vars"
    by simp
  with p ok show ?thesis
    by (simp add: try_value_def Let_def)
qed

text \<open>
  C9. Whatever \<^verbatim>\<open>propagate\<close> answers, the trail it leaves is the trail it was given
  followed by the entries it pushed, one for each domain it fixed, each of them a
  non-decision entry with discrepancy count and choice count \<open>-1\<close>: on the answer
  \<^verbatim>\<open>false\<close> nothing it pushed is taken off again. It is the loop body of
  \<^verbatim>\<open>restarting_search\<close> that, when the propagation of its candidate fails, cuts the
  trail back to what it was before the candidate's decision was pushed.
\<close>

theorem propagate_keeps_pushed_entries:
  "(propagate env params m new_domains assignments pul s = (ok, ds, assignments', s') \<longrightarrow>
      (\<exists>pushed. assignments' = assignments @ pushed
         \<and> (\<forall>e \<in> set pushed.
               \<not> is_decision e \<and> discrepancy_count e = -1 \<and> choice_count e = -1)
         \<and> length pushed + unfixed ds = unfixed new_domains))
   \<and> (fst (propagate env params m
              (copy_nonfixed_domains_and_make_assignment domains v (branch_v ! k))
              (loop_assignments vars @ [decision v branch_v k (loop_discrepancy_count vars)])
              (loop_use_lackey_for_propagation vars \<or> propagate_using_lackey params = Always)
              (world (loop_state vars))) = False \<longrightarrow>
        (\<exists>vars'. try_value child env params m domains v branch_v k vars = Some (Next vars')
           \<and> loop_assignments vars' = loop_assignments vars))"
proof (intro conjI impI)
  assume "propagate env params m new_domains assignments pul s = (ok, ds, assignments', s')"
  from propagate_trail [OF this]
  show "\<exists>pushed. assignments' = assignments @ pushed
         \<and> (\<forall>e \<in> set pushed.
               \<not> is_decision e \<and> discrepancy_count e = -1 \<and> choice_count e = -1)
         \<and> length pushed + unfixed ds = unfixed new_domains"
    by (simp add: unit_entry_def)
next
  assume "fst (propagate env params m
              (copy_nonfixed_domains_and_make_assignment domains v (branch_v ! k))
              (loop_assignments vars @ [decision v branch_v k (loop_discrepancy_count vars)])
              (loop_use_lackey_for_propagation vars \<or> propagate_using_lackey params = Always)
              (world (loop_state vars))) = False"
  from try_value_failed_propagation [OF this, of child]
  show "\<exists>vars'. try_value child env params m domains v branch_v k vars = Some (Next vars')
           \<and> loop_assignments vars' = loop_assignments vars"
    by blast
qed

text \<open>
  In the edge instance the candidate 0 for the pattern vertex 0 fails: the unit
  propagation of the branch domain pushes its entry, the other domain is wiped out, and
  the entry is still on the trail that \<^verbatim>\<open>propagate\<close> leaves.
\<close>

theorem propagate_keeps_pushed_entries_witness:
  "fst (propagate (scripted 100 100) edge_params edge_model
          (copy_nonfixed_domains_and_make_assignment edge_domains 0 0)
          [decision 0 [0, 1, 2] 0 0] False start_world) = False
   \<and> fst (snd (snd (propagate (scripted 100 100) edge_params edge_model
          (copy_nonfixed_domains_and_make_assignment edge_domains 0 0)
          [decision 0 [0, 1, 2] 0 0] False start_world)))
       = [decision 0 [0, 1, 2] 0 0,
          \<lparr>assignment = \<lparr>pattern_vertex = 0, target_vertex = 0\<rparr>, is_decision = False,
           discrepancy_count = -1, choice_count = -1\<rparr>]
   \<and> (\<exists>vars'. try_value (\<lambda>a ds s. None) (scripted 100 100) edge_params edge_model edge_domains
                  0 [0, 1, 2] 0 (first_vars start_state) = Some (Next vars')
          \<and> loop_assignments vars' = [])"
proof -
  have failed: "fst (propagate (scripted 100 100) edge_params edge_model
          (copy_nonfixed_domains_and_make_assignment edge_domains 0 0)
          [decision 0 [0, 1, 2] 0 0] False start_world) = False"
    by code_simp
  have left: "fst (snd (snd (propagate (scripted 100 100) edge_params edge_model
          (copy_nonfixed_domains_and_make_assignment edge_domains 0 0)
          [decision 0 [0, 1, 2] 0 0] False start_world)))
       = [decision 0 [0, 1, 2] 0 0,
          \<lparr>assignment = \<lparr>pattern_vertex = 0, target_vertex = 0\<rparr>, is_decision = False,
           discrepancy_count = -1, choice_count = -1\<rparr>]"
    by code_simp
  have call: "fst (propagate (scripted 100 100) edge_params edge_model
          (copy_nonfixed_domains_and_make_assignment edge_domains 0 ([0, 1, 2] ! 0))
          (loop_assignments (first_vars start_state)
             @ [decision 0 [0, 1, 2] 0 (loop_discrepancy_count (first_vars start_state))])
          (loop_use_lackey_for_propagation (first_vars start_state)
             \<or> propagate_using_lackey edge_params = Always)
          (world (loop_state (first_vars start_state)))) = False"
    by code_simp
  from propagate_keeps_pushed_entries
         [where env = "scripted 100 100" and params = edge_params and m = edge_model
            and domains = edge_domains and v = 0 and branch_v = "[0, 1, 2]" and k = 0
            and vars = "first_vars start_state" and child = "\<lambda>a ds s. None"]
       call
  have "\<exists>vars'. try_value (\<lambda>a ds s. None) (scripted 100 100) edge_params edge_model edge_domains
                  0 [0, 1, 2] 0 (first_vars start_state) = Some (Next vars')
          \<and> loop_assignments vars' = loop_assignments (first_vars start_state)"
    by blast
  then have "\<exists>vars'. try_value (\<lambda>a ds s. None) (scripted 100 100) edge_params edge_model
                  edge_domains 0 [0, 1, 2] 0 (first_vars start_state) = Some (Next vars')
          \<and> loop_assignments vars' = []"
    by (simp add: first_vars_def)
  with failed left show ?thesis by blast
qed
section \<open>The trail across a search frame\<close>

text \<open>
  What a frame does to the trail it was given: the trail it returns always starts with
  it, and is that trail unless the frame returns \<^verbatim>\<open>Satisfiable\<close> or \<^verbatim>\<open>Aborted\<close>.
\<close>

definition result_keeps ::
  "HomomorphismAssignments \<Rightarrow> SearchResult \<times> HomomorphismAssignments \<times> 'w SearchState \<Rightarrow> bool" where
  "result_keeps trail res =
     (case res of (r, trail', s') \<Rightarrow>
        (\<exists>ext. trail' = trail @ ext) \<and> (r \<noteq> Satisfiable \<and> r \<noteq> Aborted \<longrightarrow> trail' = trail))"

definition keeps_trail :: "'w Search \<Rightarrow> bool" where
  "keeps_trail child =
     (\<forall>trail ds s res. child trail ds s = Some res \<longrightarrow> result_keeps trail res)"

definition step_keeps :: "HomomorphismAssignments \<Rightarrow> 'w LoopStep \<Rightarrow> bool" where
  "step_keeps trail step =
     (case step of Next vars' \<Rightarrow> loop_assignments vars' = trail | Return res \<Rightarrow> result_keeps trail res)"

lemma post_nogoods_for_tried_trail [simp]:
  "fst (post_nogoods_for_tried env params v tried (a, w)) = a"
  unfolding post_nogoods_for_tried_def
  by (induction tried arbitrary: w) (simp_all add: Let_def)

lemma try_value_keeps:
  assumes child: "keeps_trail child"
    and tv: "try_value child env params m domains v branch_v k vars = Some step"
  shows "step_keeps (loop_assignments vars) step"
proof -
  let ?a = "loop_assignments vars"
  let ?pushed = "?a @ [decision v branch_v k (loop_discrepancy_count vars)]"
  let ?s1 = "(loop_state vars)\<lparr>propagations := propagations (loop_state vars) + 1\<rparr>"
  let ?p = "propagate env params m
              (copy_nonfixed_domains_and_make_assignment domains v (branch_v ! k)) ?pushed
              (loop_use_lackey_for_propagation vars \<or> propagate_using_lackey params = Always)
              (world ?s1)"
  obtain ok ds a2 w2 where p: "?p = (ok, ds, a2, w2)" by (cases ?p)
  from propagate_trail [OF p] obtain units where a2: "a2 = ?pushed @ units" by blast
  then have cut2: "resize (length ?a) a2 = ?a" by simp
  show ?thesis
  proof (cases ok)
    case False
    with p tv cut2 show ?thesis
      by (auto simp: try_value_def Let_def step_keeps_def)
  next
    case True
    show ?thesis
    proof (cases "child a2 ds (?s1\<lparr>world := w2\<rparr>)")
      case None
      with p True tv show ?thesis by (simp add: try_value_def Let_def)
    next
      case (Some res)
      obtain r a3 s3 where res: "res = (r, a3, s3)" by (cases res)
      from child Some res have "result_keeps a2 (r, a3, s3)" by (simp add: keeps_trail_def)
      then obtain ext where a3: "a3 = a2 @ ext" by (auto simp: result_keeps_def)
      with a2 have ext3: "a3 = ?a @ (decision v branch_v k (loop_discrepancy_count vars) # units @ ext)"
        by simp
      then have cut3: "resize (length ?a) a3 = ?a" by (simp only: resize_append)
      obtain a4 w4 where pn: "post_nogoods_for_tried env params v (take k branch_v) (?a, world s3) = (a4, w4)"
        by (cases "post_nogoods_for_tried env params v (take k branch_v) (?a, world s3)")
      with post_nogoods_for_tried_trail [of env params v "take k branch_v" ?a "world s3"]
      have a4: "a4 = ?a" by simp
      from p True Some res tv cut3 pn a4 ext3 show ?thesis
        by (cases r) (auto simp: try_value_def Let_def step_keeps_def result_keeps_def)
    qed
  qed
qed

lemma for_each_value_keeps:
  assumes "\<And>k vars step. body k vars = Some step \<Longrightarrow> step_keeps (loop_assignments vars) step"
  shows "for_each_value body ks vars = Some step \<Longrightarrow> step_keeps (loop_assignments vars) step"
proof (induction ks arbitrary: vars)
  case Nil
  then show ?case by (auto simp: step_keeps_def)
next
  case (Cons k ks)
  show ?case
  proof (cases "body k vars")
    case None
    with Cons.prems show ?thesis by simp
  next
    case (Some st)
    show ?thesis
    proof (cases st)
      case (Return res)
      with Some Cons.prems assms [OF Some] show ?thesis by simp
    next
      case (Next vars')
      with Some Cons.prems have "for_each_value body ks vars' = Some step" by simp
      moreover from assms [OF Some] Next have "loop_assignments vars' = loop_assignments vars"
        by (simp add: step_keeps_def)
      ultimately show ?thesis using Cons.IH [of vars'] by simp
    qed
  qed
qed

lemma out_of_values_keeps: "result_keeps (loop_assignments vars) (out_of_values env params vars)"
  by (simp add: out_of_values_def Let_def result_keeps_def split: prod.splits bool.splits)

lemma handle_solution_keeps: "result_keeps trail (handle_solution env params m trail s)"
  by (simp add: handle_solution_def Let_def result_keeps_def split: prod.splits bool.splits)

lemma search_values_keeps:
  assumes "keeps_trail child"
    and "search_values child env params m domains v branch_v trail s = Some res"
  shows "result_keeps trail res"
proof -
  let ?vars = "\<lparr>loop_discrepancy_count = 0, loop_actually_hit_a_failure = False,
              loop_use_lackey_for_propagation = False, loop_assignments = trail,
              loop_state = s\<rparr>"
  let ?body = "try_value child env params m domains v branch_v"
  from assms(2) obtain step where f: "for_each_value ?body [0..<length branch_v] ?vars = Some step"
    by (auto simp: search_values_def split: option.splits)
  have "step_keeps (loop_assignments ?vars) step"
    by (rule for_each_value_keeps [OF _ f]) (rule try_value_keeps [OF assms(1)])
  with f assms(2) out_of_values_keeps show ?thesis
    by (cases step) (auto simp: search_values_def step_keeps_def)
qed

lemma restarting_search_keeps:
  "keeps_trail (\<lambda>a ds s. restarting_search fuel env params m a ds s depth)"
proof (induction fuel arbitrary: depth)
  case 0
  show ?case by (simp add: keeps_trail_def)
next
  case (Suc fuel)
  show ?case
    unfolding keeps_trail_def
  proof (intro allI impI)
    fix trail ds s res
    assume r: "restarting_search (Suc fuel) env params m trail ds s depth = Some res"
    obtain abort w where ab: "should_abort env (world s) = (abort, w)"
      by (cases "should_abort env (world s)")
    show "result_keeps trail res"
    proof (cases abort)
      case True
      with r ab show ?thesis by (auto simp: result_keeps_def)
    next
      case False
      let ?s1 = "s\<lparr>nodes := nodes s + 1, world := w\<rparr>"
      show ?thesis
      proof (cases "find_branch_domain m ds")
        case None
        with r ab False handle_solution_keeps [of trail env params m ?s1] show ?thesis
          by (simp add: Let_def)
      next
        case (Some i)
        with r ab False obtain branch_v w1 where
          sv: "search_values (\<lambda>a ds s'. restarting_search fuel env params m a ds s' (depth + 1))
                 env params m ds (d_v (ds ! i)) branch_v trail (?s1\<lparr>world := w1\<rparr>) = Some res"
          by (auto simp: Let_def split: option.splits)
        from search_values_keeps [OF Suc.IH sv] show ?thesis .
      qed
    qed
  qed
qed

text \<open>
  C1, as the code has it. A call of \<^verbatim>\<open>restarting_search\<close> that returns
  \<^verbatim>\<open>SatisfiableButKeepGoing\<close>, \<^verbatim>\<open>Unsatisfiable\<close>,
  \<^verbatim>\<open>UnsatisfiableAndBackjumpUsingLackey\<close> or \<^verbatim>\<open>Restart\<close> returns the trail with the
  length it had on entry. A call that returns \<^verbatim>\<open>Aborted\<close> returns a trail that is at
  least as long: a frame that receives \<^verbatim>\<open>Aborted\<close> from its recursive call passes it
  on without cutting the trail back.
\<close>

theorem restarting_search_restores_trail:
  assumes "restarting_search fuel env params m assignments domains s depth
             = Some (r, assignments', s')"
    and "r \<noteq> Satisfiable"
  shows "(r \<noteq> Aborted \<longrightarrow> length assignments' = length assignments)
         \<and> (r = Aborted \<longrightarrow> length assignments \<le> length assignments')"
proof -
  from restarting_search_keeps [of fuel env params m depth] assms(1)
  have "result_keeps assignments (r, assignments', s')"
    unfolding keeps_trail_def by blast
  with assms(2) show ?thesis
    by (auto simp: result_keeps_def)
qed

text \<open>
  The free instance has eight solutions; once they are counted the root frame returns
  \<^verbatim>\<open>Unsatisfiable\<close>, and the trail is empty as it was.
\<close>

theorem restarting_search_restores_trail_witness:
  "restarting_search 5 (scripted 100 100) free_params free_model [] free_domains start_state 0
     = Some (Unsatisfiable, [],
             \<lparr>nodes = 15, propagations = 14, solution_count = 8,
              world = \<lparr>ticks = 15, posted = []\<rparr>\<rparr>)
   \<and> Unsatisfiable \<noteq> Satisfiable
   \<and> length ([] :: HomomorphismAssignments) = length ([] :: HomomorphismAssignments)"
proof -
  have run: "restarting_search 5 (scripted 100 100) free_params free_model [] free_domains start_state 0
     = Some (Unsatisfiable, [],
             \<lparr>nodes = 15, propagations = 14, solution_count = 8,
              world = \<lparr>ticks = 15, posted = []\<rparr>\<rparr>)"
    by code_simp
  from restarting_search_restores_trail [OF run] run show ?thesis by simp
qed

text \<open>
  In the edge instance with a timeout that lets the root frame through and aborts the
  second call, the root frame returns \<^verbatim>\<open>Aborted\<close> with three entries on the trail it
  received empty: the decision for the candidate 1 and the two unit propagations.
\<close>

theorem restarting_search_restores_trail_counterexample:
  "restarting_search 5 (scripted 1 100) edge_params edge_model [] edge_domains start_state 0
     = Some (Aborted,
             [\<lparr>assignment = \<lparr>pattern_vertex = 0, target_vertex = 1\<rparr>, is_decision = True,
               discrepancy_count = 0, choice_count = 3\<rparr>,
              \<lparr>assignment = \<lparr>pattern_vertex = 0, target_vertex = 1\<rparr>, is_decision = False,
               discrepancy_count = -1, choice_count = -1\<rparr>,
              \<lparr>assignment = \<lparr>pattern_vertex = 1, target_vertex = 2\<rparr>, is_decision = False,
               discrepancy_count = -1, choice_count = -1\<rparr>],
             \<lparr>nodes = 1, propagations = 2, solution_count = 0,
              world = \<lparr>ticks = 2, posted = []\<rparr>\<rparr>)"
  by code_simp

section \<open>The empty pattern\<close>

lemma find_branch_domain_empty [simp]: "find_branch_domain m [] = None"
  by (simp add: find_branch_domain_def)

text \<open>
  C8, as the code has it. With an empty collection of domains a call of
  \<^verbatim>\<open>restarting_search\<close> returns at once: one level of the recursion is enough, the
  trail is returned as it came (so the mapping made from it is empty when the trail is)
  and no propagation is counted. The result is \<^verbatim>\<open>Aborted\<close> when the timeout says so.
  It is \<^verbatim>\<open>Satisfiable\<close> exactly when the timeout does not abort, the extra bigraph
  check passes if bigraph mode is on, the lackey accepts if one is configured, and
  solutions are not counted; with solutions counted it is
  \<^verbatim>\<open>SatisfiableButKeepGoing\<close> instead. The solution count goes up by one with the
  result \<^verbatim>\<open>SatisfiableButKeepGoing\<close> and stays as it was with every other result.
\<close>

theorem empty_pattern_returns_at_once:
  "\<exists>r s'. restarting_search (Suc fuel) env params m assignments [] s depth
              = Some (r, assignments, s')
      \<and> propagations s' = propagations s
      \<and> solution_count s' = solution_count s + (if r = SatisfiableButKeepGoing then 1 else 0)
      \<and> (fst (should_abort env (world s)) \<longrightarrow> r = Aborted)
      \<and> (r = Satisfiable \<longleftrightarrow>
            \<not> fst (should_abort env (world s))
            \<and> (bigraph params \<longrightarrow>
                  check_extra_bigraph_constraints m (expand_to_full_result assignments Map.empty))
            \<and> (lackey params \<longrightarrow>
                  fst (check_solution env (expand_to_full_result assignments Map.empty) False
                         (count_solutions params) (snd (should_abort env (world s)))))
            \<and> \<not> count_solutions params)
      \<and> (r = SatisfiableButKeepGoing \<longleftrightarrow>
            \<not> fst (should_abort env (world s))
            \<and> (bigraph params \<longrightarrow>
                  check_extra_bigraph_constraints m (expand_to_full_result assignments Map.empty))
            \<and> (lackey params \<longrightarrow>
                  fst (check_solution env (expand_to_full_result assignments Map.empty) False
                         (count_solutions params) (snd (should_abort env (world s)))))
            \<and> count_solutions params)"
proof -
  obtain abort w where ab: "should_abort env (world s) = (abort, w)"
    by (cases "should_abort env (world s)")
  let ?mapping = "expand_to_full_result assignments Map.empty"
  obtain ok w1 where ck: "check_solution env ?mapping False (count_solutions params) w = (ok, w1)"
    by (cases "check_solution env ?mapping False (count_solutions params) w")
  show ?thesis
  proof (cases abort)
    case True
    with ab show ?thesis by simp
  next
    case False
    with ab ck show ?thesis
      by (cases ok) (simp_all add: handle_solution_def Let_def)
  qed
qed

theorem empty_pattern_returns_at_once_witness:
  "restarting_search (Suc 0) (scripted 100 100) plain_params plain_model [] [] start_state 0
     = Some (Satisfiable, [],
             \<lparr>nodes = 1, propagations = 0, solution_count = 0,
              world = \<lparr>ticks = 1, posted = []\<rparr>\<rparr>)
   \<and> \<not> fst (should_abort (scripted 100 100) (world start_state))
   \<and> \<not> bigraph plain_params \<and> \<not> lackey plain_params \<and> \<not> count_solutions plain_params
   \<and> expand_to_full_result [] Map.empty = (Map.empty :: VertexToVertexMapping)"
proof -
  have cond: "\<not> fst (should_abort (scripted 100 100) (world start_state))"
    "\<not> bigraph plain_params" "\<not> lackey plain_params" "\<not> count_solutions plain_params"
    by (simp_all add: scripted_def start_state_def start_world_def plain_params_def)
  from empty_pattern_returns_at_once
         [of 0 "scripted 100 100" plain_params plain_model "[]" start_state 0] cond
  obtain s' where
    run: "restarting_search (Suc 0) (scripted 100 100) plain_params plain_model [] [] start_state 0
            = Some (Satisfiable, [], s')"
    by auto
  have "restarting_search (Suc 0) (scripted 100 100) plain_params plain_model [] [] start_state 0
     = Some (Satisfiable, [],
             \<lparr>nodes = 1, propagations = 0, solution_count = 0,
              world = \<lparr>ticks = 1, posted = []\<rparr>\<rparr>)"
    by code_simp
  with run cond show ?thesis by (simp add: expand_to_full_result_def)
qed

text \<open>With solutions counted, the empty pattern gives \<^verbatim>\<open>SatisfiableButKeepGoing\<close>.\<close>

theorem empty_pattern_returns_at_once_counterexample:
  "restarting_search (Suc 0) (scripted 100 100) (plain_params\<lparr>count_solutions := True\<rparr>)
       plain_model [] [] start_state 0
     = Some (SatisfiableButKeepGoing, [],
             \<lparr>nodes = 1, propagations = 0, solution_count = 1,
              world = \<lparr>ticks = 1, posted = []\<rparr>\<rparr>)"
  by code_simp

section \<open>Nogoods on restart\<close>

lemma post_nogoods_for_tried_world:
  "snd (post_nogoods_for_tried env params v tried (a, w)) =
     foldl (\<lambda>w l. if might_have_watches params
                   then watches_post_nogood env
                          (map assignment (filter is_decision a)
                             @ [\<lparr>pattern_vertex = v, target_vertex = l\<rparr>]) w
                   else w)
       w tried"
  unfolding post_nogoods_for_tried_def
  by (induction tried arbitrary: w) (simp_all add: Let_def post_nogood_def)

text \<open>
  C2, as the code has it. When the recursive call for the candidate at position \<open>k\<close>
  returns \<^verbatim>\<open>Restart\<close>, the frame returns \<^verbatim>\<open>Restart\<close> with the trail it had before
  the candidate, after one call of \<^verbatim>\<open>post_nogood\<close> for each candidate \<open>l\<close> before
  position \<open>k\<close>, in order. If the parameters may have watches, the nogood posted for
  \<open>l\<close> holds the decisions already on the frame's trail followed by the literal
  (\<open>v\<close>, \<open>l\<close>): it is that single literal only when the trail holds no decision.
  Otherwise nothing is posted.
\<close>

theorem restart_posts_nogoods_for_tried_values:
  assumes "propagate env params m
             (copy_nonfixed_domains_and_make_assignment domains v (branch_v ! k))
             (loop_assignments vars @ [decision v branch_v k (loop_discrepancy_count vars)])
             (loop_use_lackey_for_propagation vars \<or> propagate_using_lackey params = Always)
             (world (loop_state vars)) = (True, ds, a2, w2)"
    and "restarting_search fuel env params m a2 ds
           ((loop_state vars)\<lparr>propagations := propagations (loop_state vars) + 1, world := w2\<rparr>)
           depth = Some (Restart, a3, s3)"
  shows "try_value (\<lambda>a ds s. restarting_search fuel env params m a ds s depth)
           env params m domains v branch_v k vars
         = Some (Return (Restart, loop_assignments vars,
             s3\<lparr>world :=
                   foldl (\<lambda>w l. if might_have_watches params
                                 then watches_post_nogood env
                                        (map assignment (filter is_decision (loop_assignments vars))
                                           @ [\<lparr>pattern_vertex = v, target_vertex = l\<rparr>]) w
                                 else w)
                     (world s3) (take k branch_v)\<rparr>))"
proof -
  let ?a = "loop_assignments vars"
  from propagate_trail [OF assms(1)] obtain units
    where a2: "a2 = (?a @ [decision v branch_v k (loop_discrepancy_count vars)]) @ units" by blast
  from restarting_search_keeps [of fuel env params m depth] assms(2)
  have "result_keeps a2 (Restart, a3, s3)" unfolding keeps_trail_def by blast
  then have "a3 = a2" by (simp add: result_keeps_def)
  with a2 have cut: "resize (length ?a) a3 = ?a" by simp
  obtain a4 w4
    where pn: "post_nogoods_for_tried env params v (take k branch_v) (?a, world s3) = (a4, w4)"
    by (cases "post_nogoods_for_tried env params v (take k branch_v) (?a, world s3)")
  from pn post_nogoods_for_tried_trail [of env params v "take k branch_v" ?a "world s3"]
  have a4: "a4 = ?a" by simp
  from pn post_nogoods_for_tried_world [of env params v "take k branch_v" ?a "world s3"]
  have w4: "w4 = foldl (\<lambda>w l. if might_have_watches params
                                 then watches_post_nogood env
                                        (map assignment (filter is_decision ?a)
                                           @ [\<lparr>pattern_vertex = v, target_vertex = l\<rparr>]) w
                                 else w)
                     (world s3) (take k branch_v)" by simp
  from assms cut pn show ?thesis
    unfolding a4 w4 by (simp add: try_value_def Let_def)
qed

theorem restart_posts_nogoods_for_tried_values_witness:
  "fst (propagate (scripted 100 0) free_params free_model
          (copy_nonfixed_domains_and_make_assignment restart_domains 1 ([0, 1] ! 1))
          (loop_assignments restart_vars
             @ [decision 1 [0, 1] 1 (loop_discrepancy_count restart_vars)])
          (loop_use_lackey_for_propagation restart_vars
             \<or> propagate_using_lackey free_params = Always)
          (world (loop_state restart_vars)))
   \<and> (\<exists>s'. try_value (\<lambda>a ds s. restarting_search 3 (scripted 100 0) free_params free_model a ds s 1)
               (scripted 100 0) free_params free_model restart_domains 1 [0, 1] 1 restart_vars
             = Some (Return (Restart, loop_assignments restart_vars, s'))
           \<and> posted (world s')
               = [[\<lparr>pattern_vertex = 0, target_vertex = 0\<rparr>, \<lparr>pattern_vertex = 1, target_vertex = 1\<rparr>],
                  [\<lparr>pattern_vertex = 0, target_vertex = 0\<rparr>, \<lparr>pattern_vertex = 1, target_vertex = 0\<rparr>]])"
proof -
  define P where "P = propagate (scripted 100 0) free_params free_model
          (copy_nonfixed_domains_and_make_assignment restart_domains 1 ([0, 1] ! 1))
          (loop_assignments restart_vars
             @ [decision 1 [0, 1] 1 (loop_discrepancy_count restart_vars)])
          (loop_use_lackey_for_propagation restart_vars
             \<or> propagate_using_lackey free_params = Always)
          (world (loop_state restart_vars))"
  have ok: "fst P" unfolding P_def by code_simp
  then have p: "P = (True, fst (snd P), fst (snd (snd P)), snd (snd (snd P)))"
    by (simp add: prod_eq_iff)
  have "map_option fst (restarting_search 3 (scripted 100 0) free_params free_model
           (fst (snd (snd P))) (fst (snd P))
           ((loop_state restart_vars)
              \<lparr>propagations := propagations (loop_state restart_vars) + 1,
               world := snd (snd (snd P))\<rparr>) 1) = Some Restart"
    unfolding P_def by code_simp
  then obtain a3 s3 where c: "restarting_search 3 (scripted 100 0) free_params free_model
           (fst (snd (snd P))) (fst (snd P))
           ((loop_state restart_vars)
              \<lparr>propagations := propagations (loop_state restart_vars) + 1,
               world := snd (snd (snd P))\<rparr>) 1 = Some (Restart, a3, s3)"
    by auto
  from restart_posts_nogoods_for_tried_values [OF p [unfolded P_def] c [unfolded P_def]]
  obtain s' where t: "try_value (\<lambda>a ds s. restarting_search 3 (scripted 100 0) free_params free_model a ds s 1)
               (scripted 100 0) free_params free_model restart_domains 1 [0, 1] 1 restart_vars
             = Some (Return (Restart, loop_assignments restart_vars, s'))"
    by blast
  have "map_option (\<lambda>step. case step of Return (r, a, s') \<Rightarrow> posted (world s') | Next vars \<Rightarrow> [])
          (try_value (\<lambda>a ds s. restarting_search 3 (scripted 100 0) free_params free_model a ds s 1)
               (scripted 100 0) free_params free_model restart_domains 1 [0, 1] 1 restart_vars)
        = Some [[\<lparr>pattern_vertex = 0, target_vertex = 0\<rparr>, \<lparr>pattern_vertex = 1, target_vertex = 1\<rparr>],
                  [\<lparr>pattern_vertex = 0, target_vertex = 0\<rparr>, \<lparr>pattern_vertex = 1, target_vertex = 0\<rparr>]]"
    by code_simp
  with t have "posted (world s')
               = [[\<lparr>pattern_vertex = 0, target_vertex = 0\<rparr>, \<lparr>pattern_vertex = 1, target_vertex = 1\<rparr>],
                  [\<lparr>pattern_vertex = 0, target_vertex = 0\<rparr>, \<lparr>pattern_vertex = 1, target_vertex = 0\<rparr>]]"
    by simp
  with t ok show ?thesis unfolding P_def by blast
qed

text \<open>
  The free instance with a restart asked for once eight nodes have been entered: the
  frame of the pattern vertex 1, below the decision (0, 0), receives \<^verbatim>\<open>Restart\<close> for
  its second candidate and posts, for the candidate 0 it tried first, a nogood of two
  literals (the second nogood in the list; the first is the one posted by the frame
  that started the restart).
\<close>

theorem restart_posts_nogoods_for_tried_values_counterexample:
  "restarting_search 5 (scripted 100 8) free_params free_model [] free_domains start_state 0
     = Some (Restart, [],
             \<lparr>nodes = 8, propagations = 7, solution_count = 4,
              world = \<lparr>ticks = 8,
                       posted = [[\<lparr>pattern_vertex = 0, target_vertex = 0\<rparr>,
                                  \<lparr>pattern_vertex = 1, target_vertex = 1\<rparr>],
                                 [\<lparr>pattern_vertex = 0, target_vertex = 0\<rparr>,
                                  \<lparr>pattern_vertex = 1, target_vertex = 0\<rparr>]]\<rparr>\<rparr>)"
  by code_simp

section \<open>Discrepancy and choice counts\<close>

text \<open>
  Whether the propagation of the candidate at position \<open>j\<close> fails, in the run of a
  frame's loop that starts from the variables \<open>vars0\<close>: the loop must get as far as
  \<open>j\<close>, and \<^verbatim>\<open>propagate\<close> on the trail with the candidate's decision must answer false.
\<close>

definition propagation_fails ::
  "'w Search \<Rightarrow> 'w Collaborators \<Rightarrow> HomomorphismParams \<Rightarrow> HomomorphismModel \<Rightarrow> Domains
    \<Rightarrow> nat \<Rightarrow> nat list \<Rightarrow> 'w LoopVars \<Rightarrow> nat \<Rightarrow> bool" where
  "propagation_fails child env params m domains v branch_v vars0 j =
     (case for_each_value (try_value child env params m domains v branch_v) [0..<j] vars0 of
        Some (Next vars) \<Rightarrow>
          \<not> fst (propagate env params m
                   (copy_nonfixed_domains_and_make_assignment domains v (branch_v ! j))
                   (loop_assignments vars @ [decision v branch_v j (loop_discrepancy_count vars)])
                   (loop_use_lackey_for_propagation vars \<or> propagate_using_lackey params = Always)
                   (world (loop_state vars)))
      | _ \<Rightarrow> False)"

lemma try_value_discrepancy:
  assumes "try_value child env params m domains v branch_v k vars = Some (Next vars')"
  shows "loop_discrepancy_count vars' =
           loop_discrepancy_count vars
           + (if fst (propagate env params m
                   (copy_nonfixed_domains_and_make_assignment domains v (branch_v ! k))
                   (loop_assignments vars @ [decision v branch_v k (loop_discrepancy_count vars)])
                   (loop_use_lackey_for_propagation vars \<or> propagate_using_lackey params = Always)
                   (world (loop_state vars))) then 1 else 0)"
proof -
  let ?p = "propagate env params m
                   (copy_nonfixed_domains_and_make_assignment domains v (branch_v ! k))
                   (loop_assignments vars @ [decision v branch_v k (loop_discrepancy_count vars)])
                   (loop_use_lackey_for_propagation vars \<or> propagate_using_lackey params = Always)
                   (world (loop_state vars))"
  obtain ok ds a2 w2 where p: "?p = (ok, ds, a2, w2)" by (cases ?p)
  show ?thesis
  proof (cases ok)
    case False
    with p assms show ?thesis by (auto simp: try_value_def Let_def)
  next
    case True
    with p assms show ?thesis
      by (auto simp: try_value_def Let_def split: option.splits prod.splits SearchResult.splits)
  qed
qed

lemma for_each_value_snoc:
  "for_each_value body (ks @ [k]) vars =
     (case for_each_value body ks vars of
        Some (Next vars') \<Rightarrow> (case body k vars' of
                                 None \<Rightarrow> None
                               | Some (Return r) \<Rightarrow> Some (Return r)
                               | Some (Next vars'') \<Rightarrow> Some (Next vars''))
      | Some (Return r) \<Rightarrow> Some (Return r)
      | None \<Rightarrow> None)"
  by (induction ks arbitrary: vars) (auto split: option.splits LoopStep.splits)

lemma loop_discrepancy:
  "for_each_value (try_value child env params m domains v branch_v) [0..<k] vars0 = Some (Next vars)
   \<Longrightarrow> loop_discrepancy_count vars =
         loop_discrepancy_count vars0 + int k
         - int (length (filter (propagation_fails child env params m domains v branch_v vars0) [0..<k]))"
proof (induction k arbitrary: vars)
  case 0
  then show ?case by simp
next
  case (Suc k)
  let ?body = "try_value child env params m domains v branch_v"
  from Suc.prems obtain vars1 where
    pre: "for_each_value ?body [0..<k] vars0 = Some (Next vars1)" and
    last: "?body k vars1 = Some (Next vars)"
    by (auto simp: for_each_value_snoc split: option.splits LoopStep.splits)
  from pre have fails: "propagation_fails child env params m domains v branch_v vars0 k =
      (\<not> fst (propagate env params m
                   (copy_nonfixed_domains_and_make_assignment domains v (branch_v ! k))
                   (loop_assignments vars1 @ [decision v branch_v k (loop_discrepancy_count vars1)])
                   (loop_use_lackey_for_propagation vars1 \<or> propagate_using_lackey params = Always)
                   (world (loop_state vars1))))"
    by (simp add: propagation_fails_def)
  from Suc.IH [OF pre] try_value_discrepancy [OF last] fails show ?case
    by simp
qed

lemma try_value_returned_trail:
  assumes child: "keeps_trail child"
    and tv: "try_value child env params m domains v branch_v k vars = Some (Return (r, trail', s'))"
    and r: "r = Satisfiable \<or> r = Aborted"
  shows "\<exists>rest. trail' = loop_assignments vars
                  @ decision v branch_v k (loop_discrepancy_count vars) # rest"
proof -
  let ?a = "loop_assignments vars"
  let ?pushed = "?a @ [decision v branch_v k (loop_discrepancy_count vars)]"
  let ?s1 = "(loop_state vars)\<lparr>propagations := propagations (loop_state vars) + 1\<rparr>"
  let ?p = "propagate env params m
              (copy_nonfixed_domains_and_make_assignment domains v (branch_v ! k)) ?pushed
              (loop_use_lackey_for_propagation vars \<or> propagate_using_lackey params = Always)
              (world ?s1)"
  obtain ok ds a2 w2 where p: "?p = (ok, ds, a2, w2)" by (cases ?p)
  from propagate_trail [OF p] obtain units where a2: "a2 = ?pushed @ units" by blast
  from p tv have ok: ok by (cases ok) (auto simp: try_value_def Let_def)
  from p ok tv obtain res where c: "child a2 ds (?s1\<lparr>world := w2\<rparr>) = Some res"
    by (cases "child a2 ds (?s1\<lparr>world := w2\<rparr>)") (auto simp: try_value_def Let_def)
  obtain r3 a3 s3 where res: "res = (r3, a3, s3)" by (cases res)
  from child c res have "result_keeps a2 (r3, a3, s3)" by (simp add: keeps_trail_def)
  then obtain ext where a3: "a3 = a2 @ ext" by (auto simp: result_keeps_def)
  from p ok c res tv r have "trail' = a3"
    by (cases r3) (auto simp: try_value_def Let_def split: prod.splits)
  with a3 a2 show ?thesis by simp
qed

text \<open>
  C3, as the code has it. Take a frame of \<^verbatim>\<open>restarting_search\<close> whose loop, started
  with discrepancy count 0, gets as far as the candidate at position \<open>k\<close>. The decision
  entry it pushes for that candidate carries the candidate as target, the number of
  candidates as choice count, and as discrepancy count \<open>k\<close> less the number of earlier
  candidates whose propagation failed: the counter is advanced at the end of the loop
  body, which a failed propagation skips. That entry is the one found on the trail, right
  after the frame's incoming trail, when the frame returns \<^verbatim>\<open>Satisfiable\<close> from this
  candidate. This is about the entry pushed for a candidate that is tried. The markers
  pushed while nogoods are posted on \<^verbatim>\<open>Restart\<close> are another kind of entry: each is
  popped again, and the posting leaves the trail as it was.
\<close>

theorem decision_entry_counts:
  fixes env :: "'w Collaborators" and fuel params m depth
  defines "child \<equiv> \<lambda>a ds s. restarting_search fuel env params m a ds s depth"
  assumes "for_each_value (try_value child env params m domains v branch_v) [0..<k] vars0
             = Some (Next vars)"
    and "loop_discrepancy_count vars0 = 0"
  shows "decision v branch_v k (loop_discrepancy_count vars) =
           \<lparr>assignment = \<lparr>pattern_vertex = v, target_vertex = branch_v ! k\<rparr>, is_decision = True,
            discrepancy_count =
              int k - int (length (filter (propagation_fails child env params m domains v branch_v vars0)
                                     [0..<k])),
            choice_count = int (length branch_v)\<rparr>
         \<and> (\<forall>trail' s'.
               try_value child env params m domains v branch_v k vars
                 = Some (Return (Satisfiable, trail', s')) \<longrightarrow>
               length (loop_assignments vars) < length trail'
               \<and> trail' ! length (loop_assignments vars)
                   = decision v branch_v k (loop_discrepancy_count vars))
         \<and> fst (post_nogoods_for_tried env params v tried (trail, w)) = trail"
proof (intro conjI allI impI)
  show "fst (post_nogoods_for_tried env params v tried (trail, w)) = trail"
    by (rule post_nogoods_for_tried_trail)
next
  from loop_discrepancy [OF assms(2)] assms(3)
  show "decision v branch_v k (loop_discrepancy_count vars) =
           \<lparr>assignment = \<lparr>pattern_vertex = v, target_vertex = branch_v ! k\<rparr>, is_decision = True,
            discrepancy_count =
              int k - int (length (filter (propagation_fails child env params m domains v branch_v vars0)
                                     [0..<k])),
            choice_count = int (length branch_v)\<rparr>"
    by (simp add: decision_def)
next
  fix trail' s'
  assume tv: "try_value child env params m domains v branch_v k vars
                = Some (Return (Satisfiable, trail', s'))"
  have "keeps_trail child"
    unfolding child_def by (rule restarting_search_keeps)
  from try_value_returned_trail [OF this tv]
  obtain rest where t: "trail' = loop_assignments vars
                  @ decision v branch_v k (loop_discrepancy_count vars) # rest"
    by blast
  then show "length (loop_assignments vars) < length trail'" by simp
  from t show "trail' ! length (loop_assignments vars)
                   = decision v branch_v k (loop_discrepancy_count vars)"
    by simp
qed

theorem decision_entry_counts_witness:
  "for_each_value
     (try_value (\<lambda>a ds s. restarting_search 4 (scripted 100 100) edge_params edge_model a ds s 1)
        (scripted 100 100) edge_params edge_model edge_domains 0 [0, 1, 2])
     [0..<1] (first_vars start_state)
   = Some (Next \<lparr>loop_discrepancy_count = 0, loop_actually_hit_a_failure = True,
                 loop_use_lackey_for_propagation = False, loop_assignments = [],
                 loop_state = \<lparr>nodes = 0, propagations = 1, solution_count = 0,
                               world = start_world\<rparr>\<rparr>)
   \<and> loop_discrepancy_count (first_vars start_state) = 0
   \<and> propagation_fails
        (\<lambda>a ds s. restarting_search 4 (scripted 100 100) edge_params edge_model a ds s 1)
        (scripted 100 100) edge_params edge_model edge_domains 0 [0, 1, 2] (first_vars start_state) 0
   \<and> decision 0 [0, 1, 2] 1 0 =
        \<lparr>assignment = \<lparr>pattern_vertex = 0, target_vertex = 1\<rparr>, is_decision = True,
         discrepancy_count = 0, choice_count = 3\<rparr>"
proof -
  let ?child = "\<lambda>a ds s. restarting_search 4 (scripted 100 100) edge_params edge_model a ds s 1"
  let ?vars = "\<lparr>loop_discrepancy_count = 0, loop_actually_hit_a_failure = True,
                 loop_use_lackey_for_propagation = False, loop_assignments = [],
                 loop_state = \<lparr>nodes = 0, propagations = 1, solution_count = 0,
                               world = start_world\<rparr>\<rparr>"
  have reach: "for_each_value
     (try_value ?child (scripted 100 100) edge_params edge_model edge_domains 0 [0, 1, 2])
     [0..<1] (first_vars start_state) = Some (Next ?vars)"
    by code_simp
  have zero: "loop_discrepancy_count (first_vars start_state) = 0"
    by (simp add: first_vars_def)
  have fails: "propagation_fails ?child (scripted 100 100) edge_params edge_model edge_domains 0
                 [0, 1, 2] (first_vars start_state) 0"
    by code_simp
  from decision_entry_counts [OF reach zero] fails
  have "decision 0 [0, 1, 2] 1 (loop_discrepancy_count ?vars) =
        \<lparr>assignment = \<lparr>pattern_vertex = 0, target_vertex = [0, 1, 2] ! 1\<rparr>, is_decision = True,
         discrepancy_count = 0, choice_count = int (length [0, 1, 2 :: nat])\<rparr>"
    by simp
  then have "decision 0 [0, 1, 2] 1 0 =
        \<lparr>assignment = \<lparr>pattern_vertex = 0, target_vertex = 1\<rparr>, is_decision = True,
         discrepancy_count = 0, choice_count = 3\<rparr>"
    by simp
  with reach zero fails show ?thesis by blast
qed

text \<open>
  In the edge instance the candidates of the root frame are ordered 0, 1, 2. The
  propagation of 0 fails, and the solution found with the candidate 1, at position 1,
  has a decision entry with discrepancy count 0.
\<close>

theorem decision_entry_counts_counterexample:
  "order_values (scripted 100 100) edge_params edge_model
       (branch_values (d_values (edge_domains ! 0))) start_world
     = Some ([0, 1, 2], start_world)
   \<and> restarting_search 5 (scripted 100 100) edge_params edge_model [] edge_domains start_state 0
     = Some (Satisfiable,
             [\<lparr>assignment = \<lparr>pattern_vertex = 0, target_vertex = 1\<rparr>, is_decision = True,
               discrepancy_count = 0, choice_count = 3\<rparr>,
              \<lparr>assignment = \<lparr>pattern_vertex = 0, target_vertex = 1\<rparr>, is_decision = False,
               discrepancy_count = -1, choice_count = -1\<rparr>,
              \<lparr>assignment = \<lparr>pattern_vertex = 1, target_vertex = 2\<rparr>, is_decision = False,
               discrepancy_count = -1, choice_count = -1\<rparr>],
             \<lparr>nodes = 2, propagations = 2, solution_count = 0,
              world = \<lparr>ticks = 2, posted = []\<rparr>\<rparr>)"
  by code_simp

section \<open>The lackey after the fixpoint\<close>

lemma dec_unsigned_zero [simp]: "dec_unsigned c = 0 \<longleftrightarrow> c = 1"
  by (auto simp: dec_unsigned_def)

lemma deletion_scan_absent:
  "\<forall>d \<in> set ds. d_v d \<noteq> p \<Longrightarrow> deletion_scan p t ds = (False, False, ds)"
  by (induction ds) auto

lemma deletion_scan_first:
  "i < length ds \<Longrightarrow> d_v (ds ! i) = p \<Longrightarrow> \<forall>j<i. d_v (ds ! j) \<noteq> p \<Longrightarrow>
   deletion_scan p t ds =
     (if test (d_values (ds ! i)) t
      then (True, d_count (ds ! i) = 1,
            ds[i := (ds ! i)\<lparr>d_values := reset t (d_values (ds ! i)),
                               d_count := dec_unsigned (d_count (ds ! i))\<rparr>])
      else (False, False, ds))"
proof (induction ds arbitrary: i)
  case Nil
  then show ?case by simp
next
  case (Cons d ds)
  show ?case
  proof (cases i)
    case 0
    with Cons.prems show ?thesis by simp
  next
    case (Suc j)
    with Cons.prems have "d_v d \<noteq> p" by auto
    moreover from Suc Cons.prems have "j < length ds" "d_v (ds ! j) = p" "\<forall>l<j. d_v (ds ! l) \<noteq> p"
      by auto
    ultimately show ?thesis using Cons.IH [of j] Suc by simp
  qed
qed

text \<open>
  C5, as the code has it. Once the unit propagation loop has reached its fixpoint with
  success: if a lackey is configured and the caller asked for lackey propagation,
  \<^verbatim>\<open>check_solution\<close> is called with the mapping of the trail, \<^verbatim>\<open>partial\<close> true,
  \<^verbatim>\<open>count\<close> false and the deletion function, and \<^verbatim>\<open>propagate\<close> fails when the
  lackey says no or a wipeout was marked; if a lackey is configured and only
  \<^verbatim>\<open>send_partials_to_lackey\<close> is set, the call is made with the empty deletion function,
  and \<^verbatim>\<open>propagate\<close> fails when the lackey says no; otherwise \<^verbatim>\<open>propagate\<close> succeeds.
  Each call of the deletion function by the lackey goes to \<open>deletion\<close>. Once a
  wipeout is marked it does nothing and answers false. It answers false and changes
  nothing when no domain belongs to \<open>p\<close>. Otherwise it looks at the first domain of
  \<open>p\<close>: if \<open>t\<close> is among its values it removes \<open>t\<close>, decrements the count, marks a
  wipeout when the count was 1, and answers true; if not, it changes nothing and
  answers false.
\<close>

theorem lackey_after_fixpoint:
  "(propagate_loop env params m new_domains assignments s = (True, ds, trail, s1) \<longrightarrow>
      propagate env params m new_domains assignments pul s =
        (if lackey params \<and> pul then
           (case run_lackey
                   (check_solution_deleting env (expand_to_full_result trail Map.empty) True False s1)
                   (ds, False) of
              (answer, s2, ds', wipeout) \<Rightarrow> (answer \<and> \<not> wipeout, ds', trail, s2))
         else if lackey params \<and> send_partials_to_lackey params then
           (case check_solution env (expand_to_full_result trail Map.empty) True False s1 of
              (answer, s2) \<Rightarrow> (answer, ds, trail, s2))
         else (True, ds, trail, s1)))
   \<and> run_lackey (Delete p t k) (ds, wipeout) =
        (case deletion p t (ds, wipeout) of (removed, st) \<Rightarrow> run_lackey (k removed) st)
   \<and> deletion p t (ds, True) = (False, (ds, True))
   \<and> ((\<forall>d \<in> set ds. d_v d \<noteq> p) \<longrightarrow> deletion p t (ds, False) = (False, (ds, False)))
   \<and> (i < length ds \<and> d_v (ds ! i) = p \<and> (\<forall>j<i. d_v (ds ! j) \<noteq> p) \<longrightarrow>
        deletion p t (ds, False) =
          (if t |\<in>| d_values (ds ! i)
           then (True,
                 (ds[i := (ds ! i)\<lparr>d_values := d_values (ds ! i) |-| {|t|},
                                    d_count := dec_unsigned (d_count (ds ! i))\<rparr>],
                  d_count (ds ! i) = 1))
           else (False, (ds, False))))"
proof (intro conjI impI)
  assume "propagate_loop env params m new_domains assignments s = (True, ds, trail, s1)"
  then show "propagate env params m new_domains assignments pul s =
        (if lackey params \<and> pul then
           (case run_lackey
                   (check_solution_deleting env (expand_to_full_result trail Map.empty) True False s1)
                   (ds, False) of
              (answer, s2, ds', wipeout) \<Rightarrow> (answer \<and> \<not> wipeout, ds', trail, s2))
         else if lackey params \<and> send_partials_to_lackey params then
           (case check_solution env (expand_to_full_result trail Map.empty) True False s1 of
              (answer, s2) \<Rightarrow> (answer, ds, trail, s2))
         else (True, ds, trail, s1))"
    by (auto simp: propagate_def Let_def split: prod.splits)
next
  show "run_lackey (Delete p t k) (ds, wipeout) =
        (case deletion p t (ds, wipeout) of (removed, st) \<Rightarrow> run_lackey (k removed) st)"
    by simp
next
  show "deletion p t (ds, True) = (False, (ds, True))"
    by (simp add: deletion_def)
next
  assume "\<forall>d \<in> set ds. d_v d \<noteq> p"
  then show "deletion p t (ds, False) = (False, (ds, False))"
    by (simp add: deletion_def deletion_scan_absent)
next
  assume "i < length ds \<and> d_v (ds ! i) = p \<and> (\<forall>j<i. d_v (ds ! j) \<noteq> p)"
  then show "deletion p t (ds, False) =
          (if t |\<in>| d_values (ds ! i)
           then (True,
                 (ds[i := (ds ! i)\<lparr>d_values := d_values (ds ! i) |-| {|t|},
                                    d_count := dec_unsigned (d_count (ds ! i))\<rparr>],
                  d_count (ds ! i) = 1))
           else (False, (ds, False)))"
    using deletion_scan_first [of i ds p t]
    by (simp add: deletion_def test_def reset_def)
qed

theorem lackey_after_fixpoint_witness:
  "propagate_loop deleting_lackey partials_params plain_model [domain_of 1 [0, 1] False] []
       start_world
     = (True, [domain_of 1 [0, 1] False], [], start_world)
   \<and> propagate deleting_lackey partials_params plain_model [domain_of 1 [0, 1] False] [] True
       start_world
     = (True, [\<lparr>d_v = 1, d_values = {|1|}, d_count = 1, d_fixed = False\<rparr>], [], start_world)
   \<and> deletion 1 0 ([domain_of 1 [0, 1] False], False)
     = (True, ([\<lparr>d_v = 1, d_values = {|1|}, d_count = 1, d_fixed = False\<rparr>], False))
   \<and> deletion 2 0 ([domain_of 1 [0, 1] False], False)
     = (False, ([domain_of 1 [0, 1] False], False))"
proof -
  let ?ds = "[domain_of 1 [0, 1] False]"
  have loop: "propagate_loop deleting_lackey partials_params plain_model ?ds [] start_world
     = (True, ?ds, [], start_world)"
    by code_simp
  have run: "propagate deleting_lackey partials_params plain_model ?ds [] True start_world
     = (True, [\<lparr>d_v = 1, d_values = {|1|}, d_count = 1, d_fixed = False\<rparr>], [], start_world)"
    by code_simp
  have first: "0 < length ?ds \<and> d_v (?ds ! 0) = 1 \<and> (\<forall>j<0. d_v (?ds ! j) \<noteq> 1)"
    by (simp add: domain_of_def)
  have absent: "\<forall>d \<in> set ?ds. d_v d \<noteq> 2"
    by (simp add: domain_of_def)
  from lackey_after_fixpoint
         [where ds = ?ds and i = 0 and p = 1 and t = 0,
          THEN conjunct2, THEN conjunct2, THEN conjunct2, THEN conjunct2, rule_format, OF first]
  have d1: "deletion 1 0 (?ds, False)
     = (True, ([\<lparr>d_v = 1, d_values = {|1|}, d_count = 1, d_fixed = False\<rparr>], False))"
    by (simp add: domain_of_def dec_unsigned_def)
  from lackey_after_fixpoint
         [where ds = ?ds and p = 2 and t = 0,
          THEN conjunct2, THEN conjunct2, THEN conjunct2, THEN conjunct1] absent
  have d2: "deletion 2 0 (?ds, False) = (False, (?ds, False))" by blast
  from loop run d1 d2 show ?thesis by blast
qed

text \<open>
  With \<^verbatim>\<open>send_partials_to_lackey\<close> set and no lackey propagation asked for, the lackey
  is called, but its deletion does not happen: the domains come back as they were. Asked
  to propagate, the same lackey on the same input removes the value.
\<close>

theorem lackey_after_fixpoint_counterexample:
  "propagate deleting_lackey partials_params plain_model [domain_of 1 [0, 1] False] [] False
       start_world
     = (True, [domain_of 1 [0, 1] False], [], start_world)
   \<and> propagate deleting_lackey partials_params plain_model [domain_of 1 [0, 1] False] [] True
       start_world
     = (True, [\<lparr>d_v = 1, d_values = {|1|}, d_count = 1, d_fixed = False\<rparr>], [], start_world)"
  by code_simp

section \<open>Less-than propagation\<close>

text \<open>
  The specification's account of \<^verbatim>\<open>propagate_less_thans\<close>, written down from its words
  and not from the loops of the source, to compare the source with. A failure is
  \<^term>\<open>None\<close>. For a pair (\<open>a\<close>, \<open>b\<close>) the first pass removes from the domain of \<open>b\<close>
  every value less than or equal to the first value of \<open>a\<close>, and fails if the domain of
  \<open>a\<close> is empty or that of \<open>b\<close> becomes empty. The second pass takes the highest value of
  \<open>b\<close> for \<^verbatim>\<open>last_b\<close>, fails if it is 0, removes from the domain of \<open>a\<close> every value
  greater than \<^verbatim>\<open>last_b - 1\<close>, and fails if the domain of \<open>a\<close> becomes empty. Each pass
  goes over every pair in order, a failure ends it, and a pair of which an endpoint has
  no domain is skipped.
\<close>

definition spec_tighten_b_below :: "nat \<Rightarrow> nat \<Rightarrow> Domains \<Rightarrow> Domains option" where
  "spec_tighten_b_below ia ib ds =
     (if d_values (ds ! ia) = {||} then None
      else
        (let first_a = fMin (d_values (ds ! ia));
             vals = d_values (ds ! ib) |-| ffilter (\<lambda>x. x \<le> first_a) (d_values (ds ! ib))
         in if vals = {||} then None
            else Some (ds[ib := (ds ! ib)\<lparr>d_values := vals, d_count := fcard vals\<rparr>])))"

definition spec_tighten_a_above :: "nat \<Rightarrow> nat \<Rightarrow> Domains \<Rightarrow> Domains option" where
  "spec_tighten_a_above ia ib ds =
     (let last_b = fMax (d_values (ds ! ib))
      in if last_b = 0 then None
         else
           (let vals = d_values (ds ! ia) |-| ffilter (\<lambda>x. x > last_b - 1) (d_values (ds ! ia))
            in if vals = {||} then None
               else Some (ds[ia := (ds ! ia)\<lparr>d_values := vals, d_count := fcard vals\<rparr>])))"

definition spec_for_every_pair ::
  "(nat \<Rightarrow> nat \<Rightarrow> Domains \<Rightarrow> Domains option) \<Rightarrow> (nat \<rightharpoonup> nat) \<Rightarrow> (nat \<times> nat) list \<Rightarrow> Domains
    \<Rightarrow> Domains option" where
  "spec_for_every_pair tighten fd pairs ds =
     foldl (\<lambda>state ab.
              case state of
                None \<Rightarrow> None
              | Some ds' \<Rightarrow>
                  (case (fd (fst ab), fd (snd ab)) of
                     (Some ia, Some ib) \<Rightarrow> tighten ia ib ds'
                   | _ \<Rightarrow> Some ds'))
       (Some ds) pairs"

definition spec_propagate_less_thans :: "HomomorphismModel \<Rightarrow> Domains \<Rightarrow> Domains option" where
  "spec_propagate_less_thans m ds =
     (case spec_for_every_pair spec_tighten_b_below (find_domain ds)
             (pattern_less_thans_in_convenient_order m) ds of
        None \<Rightarrow> None
      | Some ds1 \<Rightarrow>
          spec_for_every_pair spec_tighten_a_above (find_domain ds)
            (pattern_less_thans_in_convenient_order m) ds1)"

text \<open>The result of a function of the source that answers false for a failure, as an option.\<close>

definition succeeded :: "bool \<times> 'a \<Rightarrow> 'a option" where
  "succeeded r = (if fst r then Some (snd r) else None)"

lemma find_first_None [simp]: "find_first s = None \<longleftrightarrow> s = {||}"
  by (simp add: find_first_def)

lemma ffilter_empty [simp]: "ffilter P {||} = {||}"
  by (rule fset_eqI) simp

lemma fcard_pos [simp]: "0 < fcard s \<longleftrightarrow> s \<noteq> {||}"
  using fcard_0_eq [of s] by linarith

lemma find_first_empty [simp]: "find_first {||} = None"
  by (simp add: find_first_def)

lemma find_first_Some: "find_first s = Some x \<longleftrightarrow> s \<noteq> {||} \<and> x = fMin s"
  by (auto simp: find_first_def)

lemma strip_below_filter: "strip_below bound vals = ffilter (\<lambda>x. bound \<le> x) vals"
proof (induction bound vals rule: strip_below.induct)
  case (1 bound vals)
  show ?case
  proof (cases "find_first vals")
    case None
    then show ?thesis by (subst strip_below.simps) simp
  next
    case (Some x)
    then have x: "vals \<noteq> {||}" "x = fMin vals" by (simp_all add: find_first_Some)
    show ?thesis
    proof (cases "bound \<le> x")
      case True
      have "bound \<le> y" if "y |\<in>| vals" for y
        using True x fMin_le [OF that] by simp
      then have "ffilter (\<lambda>x. bound \<le> x) vals = vals" by auto
      with Some True show ?thesis by (subst strip_below.simps) simp
    next
      case False
      with "1.IH" [OF Some] have "strip_below bound (reset x vals) = ffilter (\<lambda>x. bound \<le> x) (reset x vals)"
        by simp
      moreover from False have "ffilter (\<lambda>x. bound \<le> x) (reset x vals) = ffilter (\<lambda>x. bound \<le> x) vals"
        by (auto simp: reset_def)
      ultimately show ?thesis using Some False by (subst strip_below.simps) simp
    qed
  qed
qed

lemma reset_where_filter: "reset_where P check vals = vals |-| ffilter P check"
proof (induction P check vals rule: reset_where.induct)
  case (1 P check vals)
  show ?case
  proof (cases "find_first check")
    case None
    then show ?thesis by (subst reset_where.simps) simp
  next
    case (Some c)
    then have c: "c |\<in>| check" by (rule find_first_Some_member)
    from "1.IH" [OF Some]
    have "reset_where P (reset c check) (if P c then reset c vals else vals)
            = (if P c then reset c vals else vals) |-| ffilter P (reset c check)" .
    moreover have "(if P c then reset c vals else vals) |-| ffilter P (reset c check)
                    = vals |-| ffilter P check"
      using c by (auto simp: reset_def)
    ultimately show ?thesis using Some by (subst reset_where.simps) simp
  qed
qed

lemma reset_where_self: "reset_where P vals vals = ffilter (\<lambda>x. \<not> P x) vals"
  by (auto simp: reset_where_filter)

lemma last_b_scan_max:
  "last_b_scan c (find_first c) l = (if c = {||} then l else Some (fMax c))"
proof (induction "fcard c" arbitrary: c l rule: less_induct)
  case less
  show ?case
  proof (cases "c = {||}")
    case True
    then show ?thesis by (subst last_b_scan.simps) (simp add: find_first_def)
  next
    case False
    let ?m = "fMin c"
    from False have ff: "find_first c = Some ?m" by (simp add: find_first_def)
    have smaller: "fcard (reset ?m c) < fcard c"
      using ff by (rule fcard_reset_find_first)
    have step: "last_b_scan c (find_first c) l
                 = last_b_scan (reset ?m c) (find_first (reset ?m c)) (Some ?m)"
      using ff by (subst last_b_scan.simps) simp
    also have "\<dots> = (if reset ?m c = {||} then Some ?m else Some (fMax (reset ?m c)))"
      by (rule less.hyps [OF smaller])
    also have "\<dots> = Some (fMax c)"
    proof (cases "reset ?m c = {||}")
      case True
      with False have "c = {|?m|}" by (auto simp: reset_def)
      then have "fMax c = ?m" by (metis fMax_finsert)
      with True show ?thesis by simp
    next
      case nonempty: False
      have "fMax (reset ?m c) = fMax c"
      proof (rule fMax_eqI)
        fix y assume "y |\<in>| reset ?m c"
        then have "y |\<in>| c" by (simp add: reset_def)
        then show "y \<le> fMax c" by (rule fMax_ge)
      next
        from nonempty obtain z where z: "z |\<in>| c" "z \<noteq> ?m" by (auto simp: reset_def)
        then have "?m \<le> z" by simp
        with z have "?m < z" by (simp add: less_le)
        also have "z \<le> fMax c" using z(1) by (rule fMax_ge)
        finally have "fMax c \<noteq> ?m" by simp
        moreover have "fMax c |\<in>| c" using False by (rule fMax_in)
        ultimately show "fMax c |\<in>| reset ?m c" by (simp add: reset_def)
      qed
      with nonempty show ?thesis by simp
    qed
    finally show ?thesis using False by simp
  qed
qed

lemma find_domain_upto:
  fixes ds :: Domains
  defines "F \<equiv> \<lambda>n. foldl (\<lambda>fd i. fd(d_v (ds ! i) \<mapsto> i)) Map.empty [0..<n]"
  shows "(F n x = None \<longleftrightarrow> (\<forall>j<n. d_v (ds ! j) \<noteq> x))
         \<and> (F n x = Some i \<longrightarrow> i < n \<and> d_v (ds ! i) = x)"
proof -
  have F0: "F 0 = Map.empty" by (simp add: F_def)
  have FS: "F (Suc k) = (F k)(d_v (ds ! k) \<mapsto> k)" for k by (simp add: F_def)
  have none: "F n x = None \<longleftrightarrow> (\<forall>j<n. d_v (ds ! j) \<noteq> x)"
  proof (induction n)
    case 0
    show ?case by (simp add: F0)
  next
    case (Suc n)
    have "(\<forall>j<Suc n. d_v (ds ! j) \<noteq> x) \<longleftrightarrow> (\<forall>j<n. d_v (ds ! j) \<noteq> x) \<and> d_v (ds ! n) \<noteq> x"
      by (simp add: less_Suc_eq) blast
    with Suc show ?case by (simp add: FS)
  qed
  have some: "F n x = Some i \<Longrightarrow> i < n \<and> d_v (ds ! i) = x"
  proof (induction n)
    case 0
    then show ?case by (simp add: F0)
  next
    case (Suc n)
    show ?case
    proof (cases "d_v (ds ! n) = x")
      case True
      with Suc.prems show ?thesis by (simp add: FS)
    next
      case False
      with Suc.prems have "F n x = Some i" by (simp add: FS)
      from Suc.IH [OF this] show ?thesis by simp
    qed
  qed
  from none some show ?thesis by blast
qed

lemma find_domain_None: "find_domain ds x = None \<longleftrightarrow> (\<forall>d \<in> set ds. d_v d \<noteq> x)"
  using find_domain_upto [of ds "length ds" x]
  by (simp add: find_domain_def all_set_conv_all_nth)

lemma find_domain_Some: "find_domain ds x = Some i \<Longrightarrow> i < length ds \<and> d_v (ds ! i) = x"
  using find_domain_upto [of ds "length ds" x i] by (simp add: find_domain_def)

lemma less_thans_first_step_present:
  assumes "fd a = Some ia" "fd b = Some ib"
  shows "less_thans_first_step m fd ds (a, b) =
    (if d_values (ds ! ia) = {||} then (False, ds)
     else if target_size m \<le> fMin (d_values (ds ! ia)) + 1 then (False, ds)
     else (ffilter (\<lambda>x. fMin (d_values (ds ! ia)) < x) (d_values (ds ! ib)) \<noteq> {||},
           ds[ib := (ds ! ib)
                \<lparr>d_values := ffilter (\<lambda>x. fMin (d_values (ds ! ia)) < x) (d_values (ds ! ib)),
                 d_count := fcard (ffilter (\<lambda>x. fMin (d_values (ds ! ia)) < x)
                                     (d_values (ds ! ib)))\<rparr>]))"
proof -
  have "ffilter (\<lambda>x. k + 1 \<le> x) s = ffilter (\<lambda>x. k < x) s" for k :: nat and s
    by (simp add: Suc_le_eq)
  with assms show ?thesis
    by (simp add: less_thans_first_step_def Let_def strip_below_filter find_first_def)
qed

lemma less_thans_second_step_present:
  assumes "fd a = Some ia" "fd b = Some ib" "d_values (ds ! ib) \<noteq> {||}"
  shows "less_thans_second_step m fd ds (a, b) =
    (if fMax (d_values (ds ! ib)) = 0 then (False, ds)
     else (ffilter (\<lambda>x. x \<le> fMax (d_values (ds ! ib)) - 1) (d_values (ds ! ia)) \<noteq> {||},
           ds[ia := (ds ! ia)
                \<lparr>d_values := ffilter (\<lambda>x. x \<le> fMax (d_values (ds ! ib)) - 1) (d_values (ds ! ia)),
                 d_count := fcard (ffilter (\<lambda>x. x \<le> fMax (d_values (ds ! ib)) - 1)
                                     (d_values (ds ! ia)))\<rparr>]))"
proof -
  have "(\<lambda>x. \<not> fMax (d_values (ds ! ib)) - 1 < x) = (\<lambda>x. x \<le> fMax (d_values (ds ! ib)) - 1)"
    by (simp add: not_less)
  with assms show ?thesis
    by (simp add: less_thans_second_step_def Let_def last_b_scan_max reset_where_self)
qed

lemma first_step_refines:
  assumes "fd a = Some ia" "fd b = Some ib"
    and bounded: "\<forall>x. x |\<in>| d_values (ds ! ib) \<longrightarrow> x < target_size m"
  shows "spec_tighten_b_below ia ib ds = succeeded (less_thans_first_step m fd ds (a, b))"
proof -
  let ?vals = "ffilter (\<lambda>x. fMin (d_values (ds ! ia)) < x) (d_values (ds ! ib))"
  have late: "?vals = {||}" if "target_size m \<le> fMin (d_values (ds ! ia)) + 1"
  proof (rule fset_eqI)
    fix y
    show "y |\<in>| ?vals \<longleftrightarrow> y |\<in>| {||}"
      using bounded that by (auto simp: less_Suc_eq_le dest!: spec [of _ y])
  qed
  have same: "d_values (ds ! ib) |-| ffilter (\<lambda>x. x \<le> fMin (d_values (ds ! ia))) (d_values (ds ! ib))
                = ?vals"
    by (rule fset_eqI) auto
  have spec: "spec_tighten_b_below ia ib ds =
      (if d_values (ds ! ia) = {||} then None
       else if ?vals = {||} then None
       else Some (ds[ib := (ds ! ib)\<lparr>d_values := ?vals, d_count := fcard ?vals\<rparr>]))"
    unfolding spec_tighten_b_below_def Let_def same by simp
  have code: "less_thans_first_step m fd ds (a, b) =
    (if d_values (ds ! ia) = {||} then (False, ds)
     else if target_size m \<le> fMin (d_values (ds ! ia)) + 1 then (False, ds)
     else (?vals \<noteq> {||}, ds[ib := (ds ! ib)\<lparr>d_values := ?vals, d_count := fcard ?vals\<rparr>]))"
    by (rule less_thans_first_step_present [OF assms(1,2)])
  show ?thesis unfolding spec code using late by (simp add: succeeded_def)
qed

lemma second_step_refines:
  assumes "fd a = Some ia" "fd b = Some ib" "d_values (ds ! ib) \<noteq> {||}"
  shows "spec_tighten_a_above ia ib ds = succeeded (less_thans_second_step m fd ds (a, b))"
proof -
  let ?last_b = "fMax (d_values (ds ! ib))"
  let ?vals = "ffilter (\<lambda>x. x \<le> ?last_b - 1) (d_values (ds ! ia))"
  have same: "d_values (ds ! ia) |-| ffilter (\<lambda>x. x > ?last_b - 1) (d_values (ds ! ia)) = ?vals"
    by (rule fset_eqI) auto
  have spec: "spec_tighten_a_above ia ib ds =
      (if ?last_b = 0 then None
       else if ?vals = {||} then None
       else Some (ds[ia := (ds ! ia)\<lparr>d_values := ?vals, d_count := fcard ?vals\<rparr>]))"
    unfolding spec_tighten_a_above_def Let_def same by simp
  have code: "less_thans_second_step m fd ds (a, b) =
      (if ?last_b = 0 then (False, ds)
       else (?vals \<noteq> {||}, ds[ia := (ds ! ia)\<lparr>d_values := ?vals, d_count := fcard ?vals\<rparr>]))"
    by (rule less_thans_second_step_present [OF assms])
  show ?thesis unfolding spec code by (simp add: succeeded_def)
qed

lemma step_absent:
  assumes "fd a = None \<or> fd b = None"
  shows "less_thans_first_step m fd ds (a, b) = (True, ds)"
    and "less_thans_second_step m fd ds (a, b) = (True, ds)"
  using assms
  by (auto simp: less_thans_first_step_def less_thans_second_step_def split: option.splits)

lemma foldl_failed:
  "foldl (\<lambda>state ab. case state of None \<Rightarrow> None | Some ds' \<Rightarrow> g ds' ab) None pairs = None"
  by (induction pairs) simp_all

lemma pass_refines:
  assumes refines: "\<And>ds ab. I ds \<Longrightarrow> ab \<in> set pairs \<Longrightarrow> g ds ab = succeeded (step ds ab)"
    and keeps: "\<And>ds ab ds'. I ds \<Longrightarrow> ab \<in> set pairs \<Longrightarrow> step ds ab = (True, ds') \<Longrightarrow> I ds'"
    and "I ds"
  shows "foldl (\<lambda>state ab. case state of None \<Rightarrow> None | Some ds' \<Rightarrow> g ds' ab) (Some ds) pairs
           = succeeded (less_thans_pass step pairs ds)
         \<and> (fst (less_thans_pass step pairs ds) \<longrightarrow> I (snd (less_thans_pass step pairs ds)))"
  using assms
proof (induction pairs arbitrary: ds)
  case Nil
  then show ?case by (simp add: succeeded_def)
next
  case (Cons ab pairs)
  obtain ok ds1 where st: "step ds ab = (ok, ds1)" by (cases "step ds ab")
  from Cons.prems(1) [of ds ab] Cons.prems(3) st
  have g: "g ds ab = (if ok then Some ds1 else None)" by (simp add: succeeded_def)
  show ?case
  proof (cases ok)
    case False
    with g st show ?thesis by (simp add: foldl_failed succeeded_def)
  next
    case True
    with Cons.prems(2) [of ds ab ds1] Cons.prems(3) st have I1: "I ds1" by simp
    have r: "g ds' ab' = succeeded (step ds' ab')" if "I ds'" "ab' \<in> set pairs" for ds' ab'
      using that by (intro Cons.prems(1)) simp_all
    have k: "I ds''" if "I ds'" "ab' \<in> set pairs" "step ds' ab' = (True, ds'')" for ds' ab' ds''
      using that(1) _ that(3) by (rule Cons.prems(2)) (simp add: that(2))
    have "foldl (\<lambda>state ab. case state of None \<Rightarrow> None | Some ds' \<Rightarrow> g ds' ab) (Some ds1) pairs
            = succeeded (less_thans_pass step pairs ds1)
          \<and> (fst (less_thans_pass step pairs ds1) \<longrightarrow> I (snd (less_thans_pass step pairs ds1)))"
      by (rule Cons.IH [OF r k I1])
    with True g st show ?thesis by simp
  qed
qed


lemma first_step_success:
  assumes "less_thans_first_step m fd ds ab = (True, ds')"
  shows "ds' = ds
       \<or> (\<exists>ia ib vals. fd (fst ab) = Some ia \<and> fd (snd ab) = Some ib \<and> vals \<noteq> {||}
              \<and> vals |\<subseteq>| d_values (ds ! ib)
              \<and> ds' = ds[ib := (ds ! ib)\<lparr>d_values := vals, d_count := fcard vals\<rparr>])"
proof (cases "fd (fst ab) = None \<or> fd (snd ab) = None")
  case True
  with step_absent(1) [of fd "fst ab" "snd ab" m ds] assms show ?thesis by simp
next
  case False
  then obtain ia ib where fd: "fd (fst ab) = Some ia" "fd (snd ab) = Some ib" by auto
  let ?vals = "ffilter (\<lambda>x. fMin (d_values (ds ! ia)) < x) (d_values (ds ! ib))"
  from less_thans_first_step_present [OF fd, of m ds] assms
  have "?vals \<noteq> {||}" "ds' = ds[ib := (ds ! ib)\<lparr>d_values := ?vals, d_count := fcard ?vals\<rparr>]"
    by (auto split: if_splits)
  moreover have "?vals |\<subseteq>| d_values (ds ! ib)" by auto
  ultimately show ?thesis using fd by blast
qed

lemma second_step_success:
  assumes "less_thans_second_step m fd ds ab = (True, ds')"
  shows "ds' = ds
       \<or> (\<exists>ia vals. fd (fst ab) = Some ia \<and> vals \<noteq> {||}
              \<and> ds' = ds[ia := (ds ! ia)\<lparr>d_values := vals, d_count := fcard vals\<rparr>])"
proof (cases "fd (fst ab) = None \<or> fd (snd ab) = None")
  case True
  with step_absent(2) [of fd "fst ab" "snd ab" m ds] assms show ?thesis by simp
next
  case False
  then obtain ia ib where fd: "fd (fst ab) = Some ia" "fd (snd ab) = Some ib" by auto
  with assms show ?thesis
    by (auto simp: less_thans_second_step_def Let_def split: if_splits)
qed

lemma update_nonempty:
  assumes "vals \<noteq> {||}" "d_values (ds ! p) \<noteq> {||}"
  shows "d_values (ds[q := (ds ! q)\<lparr>d_values := vals, d_count := c\<rparr>] ! p) \<noteq> {||}"
  using assms by (cases "q < length ds"; cases "p = q") (simp_all add: list_update_beyond)

lemma first_pass_nonempty:
  assumes "less_thans_pass (less_thans_first_step m fd) pairs ds = (True, ds')"
    and "\<And>x i. fd x = Some i \<Longrightarrow> i < length ds"
  shows "length ds' = length ds
       \<and> (\<forall>p. d_values (ds ! p) \<noteq> {||} \<longrightarrow> d_values (ds' ! p) \<noteq> {||})
       \<and> (\<forall>ab \<in> set pairs. \<forall>ia ib. fd (fst ab) = Some ia \<and> fd (snd ab) = Some ib
              \<longrightarrow> d_values (ds' ! ib) \<noteq> {||})"
  using assms
proof (induction pairs arbitrary: ds)
  case Nil
  then show ?case by simp
next
  case (Cons ab pairs)
  obtain ok ds1 where st: "less_thans_first_step m fd ds ab = (ok, ds1)"
    by (cases "less_thans_first_step m fd ds ab")
  with Cons.prems(1) have ok: ok and rest: "less_thans_pass (less_thans_first_step m fd) pairs ds1 = (True, ds')"
    by (cases ok; simp)+
  from st ok have st: "less_thans_first_step m fd ds ab = (True, ds1)" by simp
  have len1: "length ds1 = length ds"
    using first_step_success [OF st] by auto
  have keep1: "d_values (ds1 ! p) \<noteq> {||}" if "d_values (ds ! p) \<noteq> {||}" for p
  proof -
    from first_step_success [OF st]
    consider "ds1 = ds"
      | ib vals where "vals \<noteq> {||}"
          "ds1 = ds[ib := (ds ! ib)\<lparr>d_values := vals, d_count := fcard vals\<rparr>]"
      by blast
    then show ?thesis
    proof cases
      case 1
      with that show ?thesis by simp
    next
      case 2
      from update_nonempty [OF 2(1) that] 2(2) show ?thesis by simp
    qed
  qed
  have head: "d_values (ds1 ! ib) \<noteq> {||}"
    if "fd (fst ab) = Some ia" "fd (snd ab) = Some ib" for ia ib
  proof -
    from that(2) have "ib < length ds" by (rule Cons.prems(2))
    let ?vals = "ffilter (\<lambda>x. fMin (d_values (ds ! ia)) < x) (d_values (ds ! ib))"
    from less_thans_first_step_present [OF that, of m ds] st
    have "?vals \<noteq> {||}" "ds1 = ds[ib := (ds ! ib)\<lparr>d_values := ?vals, d_count := fcard ?vals\<rparr>]"
      by (auto split: if_splits)
    with \<open>ib < length ds\<close> show ?thesis by simp
  qed
  have fdlen1: "i < length ds1" if "fd x = Some i" for x i
    using Cons.prems(2) [OF that] len1 by simp
  have "length ds' = length ds1
       \<and> (\<forall>p. d_values (ds1 ! p) \<noteq> {||} \<longrightarrow> d_values (ds' ! p) \<noteq> {||})
       \<and> (\<forall>ab \<in> set pairs. \<forall>ia ib. fd (fst ab) = Some ia \<and> fd (snd ab) = Some ib
              \<longrightarrow> d_values (ds' ! ib) \<noteq> {||})"
    by (rule Cons.IH [OF rest]) (rule fdlen1)
  then have IH: "length ds' = length ds1"
    "\<And>p. d_values (ds1 ! p) \<noteq> {||} \<Longrightarrow> d_values (ds' ! p) \<noteq> {||}"
    "\<And>ab ia ib. ab \<in> set pairs \<Longrightarrow> fd (fst ab) = Some ia \<Longrightarrow> fd (snd ab) = Some ib
        \<Longrightarrow> d_values (ds' ! ib) \<noteq> {||}"
    by blast+
  show ?case
  proof (intro conjI allI ballI impI)
    show "length ds' = length ds" using IH(1) len1 by simp
  next
    fix p assume "d_values (ds ! p) \<noteq> {||}"
    then show "d_values (ds' ! p) \<noteq> {||}" by (intro IH(2) keep1)
  next
    fix ab' ia ib
    assume "ab' \<in> set (ab # pairs)" "fd (fst ab') = Some ia \<and> fd (snd ab') = Some ib"
    then consider "ab' = ab" "fd (fst ab) = Some ia" "fd (snd ab) = Some ib"
      | "ab' \<in> set pairs" "fd (fst ab') = Some ia" "fd (snd ab') = Some ib"
      by auto
    then show "d_values (ds' ! ib) \<noteq> {||}"
    proof cases
      case 1
      from head [OF 1(2,3)] show ?thesis by (rule IH(2))
    next
      case 2
      then show ?thesis by (rule IH(3))
    qed
  qed
qed

lemma propagate_less_thans_refines:
  assumes bounded: "\<forall>d \<in> set ds. \<forall>x. x |\<in>| d_values d \<longrightarrow> x < target_size m"
  shows "spec_propagate_less_thans m ds = succeeded (propagate_less_thans m ds)"
proof -
  let ?fd = "find_domain ds"
  let ?pairs = "pattern_less_thans_in_convenient_order m"
  let ?g = "\<lambda>tighten ds' ab. case (?fd (fst ab), ?fd (snd ab)) of
                               (Some ia, Some ib) \<Rightarrow> tighten ia ib ds'
                             | _ \<Rightarrow> Some ds'"
  let ?I1 = "\<lambda>ds'. length ds' = length ds
                  \<and> (\<forall>d \<in> set ds'. \<forall>x. x |\<in>| d_values d \<longrightarrow> x < target_size m)"
  let ?I2 = "\<lambda>ds'. length ds' = length ds
                  \<and> (\<forall>ab \<in> set ?pairs. \<forall>ia ib. ?fd (fst ab) = Some ia \<and> ?fd (snd ab) = Some ib
                         \<longrightarrow> d_values (ds' ! ib) \<noteq> {||})"
  have fdlen: "i < length ds" if "?fd x = Some i" for x i
    using find_domain_Some [OF that] by simp
  have r1: "?g spec_tighten_b_below ds' ab = succeeded (less_thans_first_step m ?fd ds' ab)"
    if "?I1 ds'" for ds' ab
  proof (cases "?fd (fst ab) = None \<or> ?fd (snd ab) = None")
    case True
    with step_absent(1) [of ?fd "fst ab" "snd ab" m ds'] show ?thesis
      by (auto simp: succeeded_def split: option.splits)
  next
    case False
    then obtain ia ib where fd: "?fd (fst ab) = Some ia" "?fd (snd ab) = Some ib" by auto
    from fdlen [OF fd(2)] that have "ds' ! ib \<in> set ds'" by simp
    with that have "\<forall>x. x |\<in>| d_values (ds' ! ib) \<longrightarrow> x < target_size m" by blast
    from first_step_refines [OF fd this] fd show ?thesis by simp
  qed
  have k1: "?I1 ds''" if "?I1 ds'" "less_thans_first_step m ?fd ds' ab = (True, ds'')" for ds' ab ds''
  proof -
    from first_step_success [OF that(2)]
    consider "ds'' = ds'"
      | ib vals where "?fd (snd ab) = Some ib" "vals |\<subseteq>| d_values (ds' ! ib)"
          "ds'' = ds'[ib := (ds' ! ib)\<lparr>d_values := vals, d_count := fcard vals\<rparr>]"
      by blast
    then show ?thesis
    proof cases
      case 1
      with that(1) show ?thesis by simp
    next
      case 2
      from fdlen [OF 2(1)] that(1) have in_set: "ds' ! ib \<in> set ds'" by simp
      have "\<forall>x. x |\<in>| d_values d \<longrightarrow> x < target_size m" if "d \<in> set ds''" for d
      proof -
        from that 2(3) have "d = (ds' ! ib)\<lparr>d_values := vals, d_count := fcard vals\<rparr> \<or> d \<in> set ds'"
          using set_update_subset_insert [of ds' ib] by auto
        then show ?thesis
          using in_set 2(2) \<open>?I1 ds'\<close> by auto
      qed
      with 2(3) that(1) show ?thesis by simp
    qed
  qed
  have r2: "?g spec_tighten_a_above ds' ab = succeeded (less_thans_second_step m ?fd ds' ab)"
    if "?I2 ds'" "ab \<in> set ?pairs" for ds' ab
  proof (cases "?fd (fst ab) = None \<or> ?fd (snd ab) = None")
    case True
    with step_absent(2) [of ?fd "fst ab" "snd ab" m ds'] show ?thesis
      by (auto simp: succeeded_def split: option.splits)
  next
    case False
    then obtain ia ib where fd: "?fd (fst ab) = Some ia" "?fd (snd ab) = Some ib" by auto
    with that have "d_values (ds' ! ib) \<noteq> {||}" by blast
    from second_step_refines [OF fd this] fd show ?thesis by simp
  qed
  have k2: "?I2 ds''" if "?I2 ds'" "less_thans_second_step m ?fd ds' ab = (True, ds'')" for ds' ab ds''
  proof -
    from second_step_success [OF that(2)]
    consider "ds'' = ds'"
      | ia vals where "vals \<noteq> {||}"
          "ds'' = ds'[ia := (ds' ! ia)\<lparr>d_values := vals, d_count := fcard vals\<rparr>]"
      by blast
    then show ?thesis
    proof cases
      case 1
      with that(1) show ?thesis by simp
    next
      case 2
      have "d_values (ds'' ! p) \<noteq> {||}" if "d_values (ds' ! p) \<noteq> {||}" for p
        using update_nonempty [OF 2(1) that] 2(2) by simp
      with that(1) 2(2) show ?thesis by simp
    qed
  qed
  obtain ok1 ds1 where p1: "less_thans_pass (less_thans_first_step m ?fd) ?pairs ds = (ok1, ds1)"
    by (cases "less_thans_pass (less_thans_first_step m ?fd) ?pairs ds")
  have "?I1 ds" using bounded by simp
  from pass_refines [of ?I1 ?pairs "?g spec_tighten_b_below" "less_thans_first_step m ?fd" ds,
      OF r1 k1 this]
  have first: "spec_for_every_pair spec_tighten_b_below ?fd ?pairs ds = succeeded (ok1, ds1)"
    unfolding spec_for_every_pair_def p1 by simp
  show ?thesis
  proof (cases ok1)
    case False
    with first p1 show ?thesis
      by (simp add: spec_propagate_less_thans_def propagate_less_thans_def succeeded_def)
  next
    case True
    with p1 have "less_thans_pass (less_thans_first_step m ?fd) ?pairs ds = (True, ds1)" by simp
    then have "length ds1 = length ds
       \<and> (\<forall>p. d_values (ds ! p) \<noteq> {||} \<longrightarrow> d_values (ds1 ! p) \<noteq> {||})
       \<and> (\<forall>ab \<in> set ?pairs. \<forall>ia ib. ?fd (fst ab) = Some ia \<and> ?fd (snd ab) = Some ib
              \<longrightarrow> d_values (ds1 ! ib) \<noteq> {||})"
      by (rule first_pass_nonempty) (rule fdlen)
    then have "?I2 ds1" by blast
    from pass_refines [of ?I2 ?pairs "?g spec_tighten_a_above" "less_thans_second_step m ?fd" ds1,
        OF r2 k2 this]
    have "spec_for_every_pair spec_tighten_a_above ?fd ?pairs ds1
            = succeeded (less_thans_pass (less_thans_second_step m ?fd) ?pairs ds1)"
      unfolding spec_for_every_pair_def by simp
    with True first p1 show ?thesis
      by (simp add: spec_propagate_less_thans_def propagate_less_thans_def succeeded_def)
  qed
qed

text \<open>
  C7. \<^verbatim>\<open>find_domain\<close> has an entry for a pattern vertex exactly when some domain of
  the collection belongs to it, and the entry is the position of such a domain. When the
  domains hold bit positions below \<^verbatim>\<open>target_size\<close> only, \<^verbatim>\<open>propagate_less_thans\<close> does
  what the specification says: it fails exactly when the first pass over every pair, or
  after it the second pass over every pair, fails as specified, and otherwise it leaves
  the domains that the two passes leave. Pair by pair: either pass skips a pair of which
  an endpoint has no entry. For a pair (\<open>a\<close>, \<open>b\<close>) with both entries, the domain of \<open>b\<close>
  holding bit positions below \<^verbatim>\<open>target_size\<close> only, the first pass fails if the domain
  of \<open>a\<close> is empty or no value of \<open>b\<close> lies above the first value of \<open>a\<close>; otherwise it
  leaves in the domain of \<open>b\<close> exactly the values above the first value of \<open>a\<close>, and sets
  the count. The second pass, \<open>b\<close> not being empty, takes for \<^verbatim>\<open>last_b\<close> the largest
  value of \<open>b\<close>, fails if that is 0, and otherwise leaves in the domain of \<open>a\<close>
  exactly the values up to \<^verbatim>\<open>last_b - 1\<close>, sets the count, and fails if none is left.
\<close>

theorem propagate_less_thans_tightens:
  "(find_domain ds x = None \<longleftrightarrow> (\<forall>d \<in> set ds. d_v d \<noteq> x))
   \<and> (find_domain ds x = Some i \<longrightarrow> i < length ds \<and> d_v (ds ! i) = x)
   \<and> ((\<forall>d \<in> set ds. \<forall>x. x |\<in>| d_values d \<longrightarrow> x < target_size m) \<longrightarrow>
        spec_propagate_less_thans m ds =
          (if fst (propagate_less_thans m ds) then Some (snd (propagate_less_thans m ds))
           else None))
   \<and> (fd a = None \<or> fd b = None \<longrightarrow>
        less_thans_first_step m fd ds (a, b) = (True, ds)
        \<and> less_thans_second_step m fd ds (a, b) = (True, ds))
   \<and> (fd a = Some ia \<and> fd b = Some ib \<and> (\<forall>x. x |\<in>| d_values (ds ! ib) \<longrightarrow> x < target_size m) \<longrightarrow>
        (fst (less_thans_first_step m fd ds (a, b)) \<longleftrightarrow>
           d_values (ds ! ia) \<noteq> {||}
           \<and> ffilter (\<lambda>x. fMin (d_values (ds ! ia)) < x) (d_values (ds ! ib)) \<noteq> {||})
        \<and> (fst (less_thans_first_step m fd ds (a, b)) \<longrightarrow>
             snd (less_thans_first_step m fd ds (a, b)) =
               ds[ib := (ds ! ib)
                    \<lparr>d_values := ffilter (\<lambda>x. fMin (d_values (ds ! ia)) < x) (d_values (ds ! ib)),
                     d_count := fcard (ffilter (\<lambda>x. fMin (d_values (ds ! ia)) < x)
                                         (d_values (ds ! ib)))\<rparr>]))
   \<and> (fd a = Some ia \<and> fd b = Some ib \<and> d_values (ds ! ib) \<noteq> {||} \<longrightarrow>
        less_thans_second_step m fd ds (a, b) =
          (if fMax (d_values (ds ! ib)) = 0 then (False, ds)
           else (ffilter (\<lambda>x. x \<le> fMax (d_values (ds ! ib)) - 1) (d_values (ds ! ia)) \<noteq> {||},
                 ds[ia := (ds ! ia)
                      \<lparr>d_values := ffilter (\<lambda>x. x \<le> fMax (d_values (ds ! ib)) - 1)
                                       (d_values (ds ! ia)),
                       d_count := fcard (ffilter (\<lambda>x. x \<le> fMax (d_values (ds ! ib)) - 1)
                                           (d_values (ds ! ia)))\<rparr>])))"
proof (intro conjI impI)
  show "find_domain ds x = None \<longleftrightarrow> (\<forall>d \<in> set ds. d_v d \<noteq> x)"
    by (rule find_domain_None)
next
  assume "find_domain ds x = Some i"
  then show "i < length ds" "d_v (ds ! i) = x"
    by (simp_all add: find_domain_Some)
next
  assume "\<forall>d \<in> set ds. \<forall>x. x |\<in>| d_values d \<longrightarrow> x < target_size m"
  then show "spec_propagate_less_thans m ds =
          (if fst (propagate_less_thans m ds) then Some (snd (propagate_less_thans m ds))
           else None)"
    unfolding succeeded_def [symmetric] by (rule propagate_less_thans_refines)
next
  assume "fd a = None \<or> fd b = None"
  then show "less_thans_first_step m fd ds (a, b) = (True, ds)"
    "less_thans_second_step m fd ds (a, b) = (True, ds)"
    by (rule step_absent)+
next
  assume h: "fd a = Some ia \<and> fd b = Some ib \<and> (\<forall>x. x |\<in>| d_values (ds ! ib) \<longrightarrow> x < target_size m)"
  let ?vals = "ffilter (\<lambda>x. fMin (d_values (ds ! ia)) < x) (d_values (ds ! ib))"
  have late: "?vals = {||}" if "target_size m \<le> fMin (d_values (ds ! ia)) + 1"
  proof (rule fset_eqI)
    fix y
    show "y |\<in>| ?vals \<longleftrightarrow> y |\<in>| {||}"
      using h that by (auto simp: less_Suc_eq_le dest!: spec [of _ y])
  qed
  from h have eq: "less_thans_first_step m fd ds (a, b) =
    (if d_values (ds ! ia) = {||} then (False, ds)
     else if target_size m \<le> fMin (d_values (ds ! ia)) + 1 then (False, ds)
     else (?vals \<noteq> {||}, ds[ib := (ds ! ib)\<lparr>d_values := ?vals, d_count := fcard ?vals\<rparr>]))"
    by (simp add: less_thans_first_step_present)
  show "fst (less_thans_first_step m fd ds (a, b)) \<longleftrightarrow>
           d_values (ds ! ia) \<noteq> {||} \<and> ?vals \<noteq> {||}"
    unfolding eq using late by auto
  assume "fst (less_thans_first_step m fd ds (a, b))"
  then show "snd (less_thans_first_step m fd ds (a, b)) =
               ds[ib := (ds ! ib)\<lparr>d_values := ?vals, d_count := fcard ?vals\<rparr>]"
    unfolding eq by (auto split: if_splits)
next
  assume "fd a = Some ia \<and> fd b = Some ib \<and> d_values (ds ! ib) \<noteq> {||}"
  then show "less_thans_second_step m fd ds (a, b) =
          (if fMax (d_values (ds ! ib)) = 0 then (False, ds)
           else (ffilter (\<lambda>x. x \<le> fMax (d_values (ds ! ib)) - 1) (d_values (ds ! ia)) \<noteq> {||},
                 ds[ia := (ds ! ia)
                      \<lparr>d_values := ffilter (\<lambda>x. x \<le> fMax (d_values (ds ! ib)) - 1)
                                       (d_values (ds ! ia)),
                       d_count := fcard (ffilter (\<lambda>x. x \<le> fMax (d_values (ds ! ib)) - 1)
                                           (d_values (ds ! ia)))\<rparr>]))"
    by (simp add: less_thans_second_step_present)
qed

text \<open>
  In the ordered instance the pattern vertex 0 has the values 1 and 3 and the vertex 1 the
  values 0 to 3: the first pass leaves 2 and 3 to the vertex 1, the second pass leaves 1
  to the vertex 0. With the value 3 only for the vertex 0 and the values 1 and 2 for the
  vertex 1, no value of the vertex 1 lies above, and the propagation fails.
\<close>

theorem propagate_less_thans_tightens_witness:
  "find_domain ordered_domains 0 = Some 0 \<and> find_domain ordered_domains 1 = Some 1
   \<and> find_domain ordered_domains 2 = None
   \<and> fst (less_thans_first_step ordered_model (find_domain ordered_domains) ordered_domains (0, 1))
   \<and> snd (less_thans_first_step ordered_model (find_domain ordered_domains) ordered_domains (0, 1))
       = [domain_of 0 [1, 3] False,
          \<lparr>d_v = 1, d_values = {|2, 3|}, d_count = 2, d_fixed = False\<rparr>]
   \<and> propagate_less_thans ordered_model ordered_domains
       = (True, [\<lparr>d_v = 0, d_values = {|1|}, d_count = 1, d_fixed = False\<rparr>,
                 \<lparr>d_v = 1, d_values = {|2, 3|}, d_count = 2, d_fixed = False\<rparr>])
   \<and> \<not> fst (propagate_less_thans ordered_model
               [domain_of 0 [3] False, domain_of 1 [1, 2] False])"
proof -
  note T = propagate_less_thans_tightens
             [where m = ordered_model and ds = ordered_domains and x = 2 and i = 0
                and fd = "find_domain ordered_domains" and a = 0 and b = 1 and ia = 0 and ib = 1]
  have fd: "find_domain ordered_domains 0 = Some 0" "find_domain ordered_domains 1 = Some 1"
    by code_simp+
  have absent: "\<forall>d \<in> set ordered_domains. d_v d \<noteq> 2"
    by (simp add: ordered_domains_def domain_of_def)
  with T have none: "find_domain ordered_domains 2 = None" by blast
  have bounded: "\<forall>x. x |\<in>| d_values (ordered_domains ! 1) \<longrightarrow> x < target_size ordered_model"
    by (auto simp: ordered_domains_def ordered_model_def plain_model_def domain_of_def)
  have nonempty: "d_values (ordered_domains ! 0) \<noteq> {||}
      \<and> ffilter (\<lambda>x. fMin (d_values (ordered_domains ! 0)) < x) (d_values (ordered_domains ! 1))
          \<noteq> {||}"
    by code_simp
  from T fd bounded nonempty
  have ok: "fst (less_thans_first_step ordered_model (find_domain ordered_domains)
                   ordered_domains (0, 1))"
    by blast
  with T fd bounded
  have "snd (less_thans_first_step ordered_model (find_domain ordered_domains) ordered_domains (0, 1))
       = ordered_domains[1 := (ordered_domains ! 1)
            \<lparr>d_values := ffilter (\<lambda>x. fMin (d_values (ordered_domains ! 0)) < x)
                            (d_values (ordered_domains ! 1)),
             d_count := fcard (ffilter (\<lambda>x. fMin (d_values (ordered_domains ! 0)) < x)
                                 (d_values (ordered_domains ! 1)))\<rparr>]"
    by blast
  also have "\<dots> = [domain_of 0 [1, 3] False,
          \<lparr>d_v = 1, d_values = {|2, 3|}, d_count = 2, d_fixed = False\<rparr>]"
    by code_simp
  finally have after: "snd (less_thans_first_step ordered_model (find_domain ordered_domains)
                              ordered_domains (0, 1))
       = [domain_of 0 [1, 3] False,
          \<lparr>d_v = 1, d_values = {|2, 3|}, d_count = 2, d_fixed = False\<rparr>]" .
  have all_bounded: "\<forall>d \<in> set ordered_domains. \<forall>x. x |\<in>| d_values d \<longrightarrow> x < target_size ordered_model"
    by (auto simp: ordered_domains_def ordered_model_def plain_model_def domain_of_def)
  with T have refines: "spec_propagate_less_thans ordered_model ordered_domains =
      (if fst (propagate_less_thans ordered_model ordered_domains)
       then Some (snd (propagate_less_thans ordered_model ordered_domains)) else None)"
    by blast
  have "spec_propagate_less_thans ordered_model ordered_domains
       = Some [\<lparr>d_v = 0, d_values = {|1|}, d_count = 1, d_fixed = False\<rparr>,
               \<lparr>d_v = 1, d_values = {|2, 3|}, d_count = 2, d_fixed = False\<rparr>]"
    by code_simp
  with refines have run: "propagate_less_thans ordered_model ordered_domains
       = (True, [\<lparr>d_v = 0, d_values = {|1|}, d_count = 1, d_fixed = False\<rparr>,
                 \<lparr>d_v = 1, d_values = {|2, 3|}, d_count = 2, d_fixed = False\<rparr>])"
    by (cases "propagate_less_thans ordered_model ordered_domains") (simp split: if_splits)
  let ?stuck = "[domain_of 0 [3] False, domain_of 1 [1, 2] False]"
  have "\<forall>d \<in> set ?stuck. \<forall>x. x |\<in>| d_values d \<longrightarrow> x < target_size ordered_model"
    by (auto simp: ordered_model_def plain_model_def domain_of_def)
  with propagate_less_thans_tightens [where m = ordered_model and ds = ?stuck]
  have "spec_propagate_less_thans ordered_model ?stuck =
      (if fst (propagate_less_thans ordered_model ?stuck)
       then Some (snd (propagate_less_thans ordered_model ?stuck)) else None)"
    by blast
  moreover have "spec_propagate_less_thans ordered_model ?stuck = None"
    by code_simp
  ultimately have fails: "\<not> fst (propagate_less_thans ordered_model ?stuck)"
    by (simp split: if_splits)
  from fd none ok after run fails show ?thesis by blast
qed

section \<open>The softmax shuffle\<close>

text \<open>The weight of a target vertex, and lists whose degrees the model's maximum bounds.\<close>

definition weight :: "HomomorphismModel \<Rightarrow> nat \<Rightarrow> int" where
  "weight m x =
     2 ^ nat (max (int (target_degree m 0 x) - int (largest_target_degree m)
                     + sufficient_space_for_adding_up) 0)"

definition in_range :: "HomomorphismModel \<Rightarrow> nat list \<Rightarrow> bool" where
  "in_range m xs = (\<forall>x \<in> set xs. target_degree m 0 x \<le> largest_target_degree m)"

lemma expish_weight:
  assumes "target_degree m 0 x \<le> largest_target_degree m"
  shows "expish m (int (target_degree m 0 x)) = Some (weight m x)"
    and "1 \<le> weight m x" and "weight m x \<le> 2 ^ 45"
proof -
  let ?shift = "max (int (target_degree m 0 x) - int (largest_target_degree m)
                     + sufficient_space_for_adding_up) 0"
  from assms have le: "?shift \<le> 45" by (simp add: sufficient_space_for_adding_up_def)
  then show "expish m (int (target_degree m 0 x)) = Some (weight m x)"
    by (simp add: expish_def weight_def Let_def)
  show "1 \<le> weight m x" by (simp add: weight_def)
  from le have "nat ?shift \<le> 45" by simp
  then have "(2::int) ^ nat ?shift \<le> 2 ^ 45" by (rule power_increasing) simp
  then show "weight m x \<le> 2 ^ 45" by (simp add: weight_def)
qed

lemma sum_weights_bounds:
  assumes "in_range m xs"
  shows "int (length xs) \<le> sum_list (map (weight m) xs)"
    and "sum_list (map (weight m) xs) \<le> int (length xs) * 2 ^ 45"
  using assms
proof (induction xs)
  case Nil
  { case 1 show ?case by simp }
  { case 2 show ?case by simp }
next
  case (Cons x xs)
  { case 1
    then have "in_range m xs" "target_degree m 0 x \<le> largest_target_degree m"
      by (simp_all add: in_range_def)
    with Cons.IH(1) expish_weight(2) [of m x] show ?case by simp }
  { case 2
    then have "in_range m xs" "target_degree m 0 x \<le> largest_target_degree m"
      by (simp_all add: in_range_def)
    with Cons.IH(2) expish_weight(3) [of m x] show ?case by (simp add: algebra_simps) }
qed

lemma softmax_total_sum:
  assumes "in_range m xs" and "t + sum_list (map (weight m) xs) \<le> LLONG_MAX"
  shows "softmax_total m xs t = Some (t + sum_list (map (weight m) xs))"
  using assms
proof (induction xs arbitrary: t)
  case Nil
  then show ?case by simp
next
  case (Cons x xs)
  then have r: "in_range m xs" "target_degree m 0 x \<le> largest_target_degree m"
    by (simp_all add: in_range_def)
  from sum_weights_bounds(1) [OF r(1)] have "0 \<le> sum_list (map (weight m) xs)" by simp
  with Cons.prems(2) have "t + weight m x \<le> LLONG_MAX" by simp
  moreover from Cons.prems(2) have "(t + weight m x) + sum_list (map (weight m) xs) \<le> LLONG_MAX"
    by (simp add: add.assoc)
  ultimately show ?case
    using Cons.IH [OF r(1), of "t + weight m x"] expish_weight(1) [OF r(2)]
    by (simp add: add.assoc)
qed

lemma softmax_select_in_suffix:
  assumes "in_range m branch_v" and "select_element < length branch_v"
  shows "\<exists>j. softmax_select m branch_v select_element select_score = Some j
            \<and> select_element \<le> j \<and> j < length branch_v"
  using assms
proof (induction m branch_v select_element select_score rule: softmax_select.induct)
  case (1 m branch_v select_element select_score)
  show ?case
  proof (cases "select_element + 1 < length branch_v")
    case False
    with "1.prems" show ?thesis by (subst softmax_select.simps) simp
  next
    case True
    from "1.prems" have "target_degree m 0 (branch_v ! select_element) \<le> largest_target_degree m"
      by (simp add: in_range_def)
    from expish_weight(1) [OF this]
    have e: "expish m (int (target_degree m 0 (branch_v ! select_element)))
               = Some (weight m (branch_v ! select_element))" .
    show ?thesis
    proof (cases "select_score - weight m (branch_v ! select_element) \<le> 0")
      case stop: True
      with True e "1.prems" show ?thesis by (subst softmax_select.simps) simp
    next
      case False
      from "1.IH" [OF True e False "1.prems"(1)] True
      obtain j where "softmax_select m branch_v (select_element + 1)
                        (select_score - weight m (branch_v ! select_element)) = Some j"
        "select_element + 1 \<le> j" "j < length branch_v" by auto
      with True e False show ?thesis by (subst softmax_select.simps) simp
    qed
  qed
qed

lemma mset_drop_swap:
  assumes "start \<le> j" "j < length xs"
  shows "mset (drop start (xs[j := xs ! start, start := xs ! j])) = mset (drop start xs)"
proof -
  let ?ys = "xs[j := xs ! start, start := xs ! j]"
  from assms have "mset ?ys = mset xs" by (simp add: mset_swap)
  then have "mset (take start ?ys) + mset (drop start ?ys) = mset (take start xs) + mset (drop start xs)"
    by (metis append_take_drop_id mset_append)
  moreover from assms have "take start ?ys = take start xs" by simp
  ultimately show ?thesis by simp
qed

lemma sum_list_mset_cong:
  "mset xs = mset ys \<Longrightarrow> sum_list (map f xs) = sum_list (map (f :: 'a \<Rightarrow> int) ys)"
  by (metis mset_map sum_mset_sum_list)

lemma softmax_rounds_permutes:
  assumes "in_range m branch_v" "start \<le> length branch_v"
    and "total' = sum_list (map (weight m) (drop start branch_v))"
  shows "\<exists>ys s'. softmax_rounds env m branch_v start total' s = Some (ys, s')
            \<and> mset ys = mset branch_v"
  using assms
proof (induction "length branch_v - start" arbitrary: branch_v start total' s)
  case 0
  then show ?case by (subst softmax_rounds.simps) simp
next
  case (Suc n)
  then have lt: "start < length branch_v" by simp
  let ?rest = "drop start branch_v"
  from Suc.prems(1) have "in_range m ?rest"
    by (auto simp: in_range_def dest: in_set_dropD)
  from sum_weights_bounds(1) [OF this] lt Suc.prems(3) have pos: "\<not> total' < 1" by simp
  obtain select_score s1 where u: "uniform_int_distribution env 1 total' s = (select_score, s1)"
    by (cases "uniform_int_distribution env 1 total' s")
  from softmax_select_in_suffix [OF Suc.prems(1) lt, of select_score]
  obtain j where sel: "softmax_select m branch_v start select_score = Some j"
    and j: "start \<le> j" "j < length branch_v" by blast
  from Suc.prems(1) j have "target_degree m 0 (branch_v ! j) \<le> largest_target_degree m"
    by (simp add: in_range_def)
  from expish_weight(1) [OF this]
  have e: "expish m (int (target_degree m 0 (branch_v ! j))) = Some (weight m (branch_v ! j))" .
  let ?next = "branch_v[j := branch_v ! start, start := branch_v ! j]"
  have perm: "mset ?next = mset branch_v" using j lt by (simp add: mset_swap)
  then have "set ?next = set branch_v" by (rule mset_eq_setD)
  with Suc.prems(1) have r': "in_range m ?next" by (simp add: in_range_def)
  have len: "length ?next = length branch_v" by simp
  have "drop start ?next = (?next ! start) # drop (Suc start) ?next"
    using lt len by (metis Cons_nth_drop_Suc)
  moreover have "?next ! start = branch_v ! j" using lt by simp
  ultimately have "sum_list (map (weight m) (drop start ?next))
                     = weight m (branch_v ! j) + sum_list (map (weight m) (drop (Suc start) ?next))"
    by simp
  moreover have "sum_list (map (weight m) (drop start ?next)) = sum_list (map (weight m) ?rest)"
    by (rule sum_list_mset_cong) (rule mset_drop_swap [OF j])
  ultimately have t': "total' - weight m (branch_v ! j)
                         = sum_list (map (weight m) (drop (start + 1) ?next))"
    using Suc.prems(3) by simp
  from Suc.hyps(2) lt have n: "n = length ?next - (start + 1)" by simp
  from lt have le': "start + 1 \<le> length ?next" by simp
  from Suc.hyps(1) [OF n r' le' t', of s1]
  obtain ys s' where "softmax_rounds env m ?next (start + 1) (total' - weight m (branch_v ! j)) s1
                        = Some (ys, s')" "mset ys = mset ?next" by blast
  with perm lt pos u sel e show ?case
    by (subst softmax_rounds.simps) simp
qed

text \<open>
  C10, as the code has it. For a list of fewer than \<open>2 ^ 18\<close> candidates, none of a
  degree above \<^verbatim>\<open>largest_target_degree\<close>, \<^verbatim>\<open>softmax_shuffle\<close> is well defined and
  returns a permutation of the list, whatever the random source draws: every weight is
  defined and at least 1, the total is defined and at least the number of candidates,
  the scan started at a position of the list selects a position from there to the end
  of the list, and the shuffle has a result.
\<close>

theorem softmax_shuffle_permutes:
  assumes "length branch_v < 2 ^ 18"
    and "\<forall>x \<in> set branch_v. target_degree m 0 x \<le> largest_target_degree m"
  shows "(\<forall>x \<in> set branch_v. \<exists>w. expish m (int (target_degree m 0 x)) = Some w \<and> 1 \<le> w)
         \<and> (\<exists>total'. softmax_total m branch_v 0 = Some total' \<and> int (length branch_v) \<le> total')
         \<and> (\<forall>start < length branch_v. \<forall>select_score.
               \<exists>j. softmax_select m branch_v start select_score = Some j
                    \<and> start \<le> j \<and> j < length branch_v)
         \<and> (\<exists>ys s'. softmax_shuffle env m branch_v s = Some (ys, s') \<and> mset ys = mset branch_v)"
proof (intro conjI)
  from assms(2) have r: "in_range m branch_v" by (simp add: in_range_def)
  let ?sum = "sum_list (map (weight m) branch_v)"
  from assms(1) have "int (length branch_v) * 2 ^ 45 \<le> (2 ^ 18 - 1) * 2 ^ 45"
    by (intro mult_right_mono) simp_all
  with sum_weights_bounds(2) [OF r] have "?sum \<le> LLONG_MAX"
    by (simp add: LLONG_MAX_def)
  with softmax_total_sum [OF r, of 0] have t: "softmax_total m branch_v 0 = Some ?sum"
    by simp
  with sum_weights_bounds(1) [OF r]
  show "\<exists>total'. softmax_total m branch_v 0 = Some total' \<and> int (length branch_v) \<le> total'"
    by simp
  from assms(2) show "\<forall>x \<in> set branch_v. \<exists>w. expish m (int (target_degree m 0 x)) = Some w \<and> 1 \<le> w"
    using expish_weight(1,2) by blast
  from softmax_select_in_suffix [OF r]
  show "\<forall>start < length branch_v. \<forall>select_score.
               \<exists>j. softmax_select m branch_v start select_score = Some j
                    \<and> start \<le> j \<and> j < length branch_v"
    by blast
  from softmax_rounds_permutes [OF r, of 0 ?sum env s]
  obtain ys s' where "softmax_rounds env m branch_v 0 ?sum s = Some (ys, s')"
    "mset ys = mset branch_v" by auto
  with t show "\<exists>ys s'. softmax_shuffle env m branch_v s = Some (ys, s') \<and> mset ys = mset branch_v"
    by (simp add: softmax_shuffle_def)
qed

theorem softmax_shuffle_permutes_witness:
  "length [0, 1, 2 :: nat] < 2 ^ 18
   \<and> target_degree edge_model 0 0 \<le> largest_target_degree edge_model
   \<and> target_degree edge_model 0 1 \<le> largest_target_degree edge_model
   \<and> target_degree edge_model 0 2 \<le> largest_target_degree edge_model
   \<and> softmax_shuffle greedy_rand edge_model [0, 1, 2] start_world = Some ([2, 0, 1], start_world)
   \<and> mset [2, 0, 1 :: nat] = mset [0, 1, 2]"
proof -
  have len: "length [0, 1, 2 :: nat] < 2 ^ 18" by simp
  have deg: "\<forall>x \<in> set [0, 1, 2]. target_degree edge_model 0 x \<le> largest_target_degree edge_model"
    by (simp add: edge_model_def plain_model_def)
  have run: "softmax_shuffle greedy_rand edge_model [0, 1, 2] start_world
               = Some ([2, 0, 1], start_world)"
    by code_simp
  from softmax_shuffle_permutes [OF len deg, of greedy_rand start_world]
  have "\<exists>ys s'. softmax_shuffle greedy_rand edge_model [0, 1, 2] start_world = Some (ys, s')
                \<and> mset ys = mset [0, 1, 2 :: nat]"
    by blast
  with run have "mset [2, 0, 1 :: nat] = mset [0, 1, 2]" by auto
  with len deg run show ?thesis by simp
qed

lemma softmax_total_equal_weights:
  assumes "0 \<le> w"
  shows "\<forall>x \<in> set xs. expish m (int (target_degree m 0 x)) = Some w \<Longrightarrow> t \<le> LLONG_MAX \<Longrightarrow>
         softmax_total m xs t =
           (if t + int (length xs) * w \<le> LLONG_MAX then Some (t + int (length xs) * w) else None)"
proof (induction xs arbitrary: t)
  case Nil
  then show ?case by simp
next
  case (Cons x xs)
  from assms have nw: "0 \<le> int (length xs) * w" by simp
  from Cons.prems(1) have e: "expish m (int (target_degree m 0 x)) = Some w" by simp
  show ?case
  proof (cases "t + w > LLONG_MAX")
    case True
    with nw have "t + int (length (x # xs)) * w > LLONG_MAX" by (simp add: algebra_simps)
    with True e show ?thesis by simp
  next
    case False
    then have "t + w \<le> LLONG_MAX" by simp
    from Cons.IH [OF _ this] Cons.prems(1) False e show ?thesis by (simp add: algebra_simps)
  qed
qed

text \<open>
  With \<open>2 ^ 18\<close> candidates of the largest degree, each weight is \<open>2 ^ 45\<close> and the
  total passes the largest \<^verbatim>\<open>long long\<close>.
\<close>

theorem softmax_shuffle_permutes_counterexample:
  "[0..<2 ^ 18] \<noteq> []
   \<and> softmax_shuffle (scripted 100 100) edgeless_model [0..<2 ^ 18] start_world = None"
proof -
  have e: "\<forall>x \<in> set [0..<2 ^ 18].
             expish edgeless_model (int (target_degree edgeless_model 0 x)) = Some (2 ^ 45)"
    by (simp add: expish_def edgeless_model_def plain_model_def
        sufficient_space_for_adding_up_def Let_def)
  have "softmax_total edgeless_model [0..<2 ^ 18] 0 = None"
    by (subst softmax_total_equal_weights [OF _ e]) (simp_all add: LLONG_MAX_def)
  moreover have "[0..<2 ^ 18] \<noteq> ([] :: nat list)" by simp
  ultimately show ?thesis by (simp add: softmax_shuffle_def)
qed

section \<open>The degree sort\<close>

text \<open>
  What the insertion sort makes of the two comparators of \<^verbatim>\<open>degree_sort\<close>. With
  \<^verbatim>\<open>reverse\<close> set the comparator is \<open><\<close> on the degrees, and the result is the stable
  sort by ascending degree. With \<^verbatim>\<open>reverse\<close> unset the comparator is \<open>\<ge>\<close>, and the
  result is that stable ascending sort read backwards: the degrees descend, and candidates
  of equal degree come in the reverse of their original order.
\<close>

lemma unguarded_linear_insert_conv:
  "unguarded_linear_insert cmp val ps = takeWhile (cmp val) ps @ val # dropWhile (cmp val) ps"
  by (induction ps) simp_all

lemma filter_none: "\<forall>p \<in> set ps. \<not> P p \<Longrightarrow> [] = filter P ps"
  by (simp add: empty_filter_conv)

lemma filter_all: "\<forall>p \<in> set ps. P p \<Longrightarrow> ps = filter P ps"
  by (simp add: filter_id_conv)

lemma takeWhile_sorted_le:
  "sorted (map f ps) \<Longrightarrow> takeWhile (\<lambda>p. f p \<le> (k::nat)) ps = filter (\<lambda>p. f p \<le> k) ps"
  by (induction ps) (auto intro!: filter_none)

lemma dropWhile_sorted_le:
  "sorted (map f ps) \<Longrightarrow> dropWhile (\<lambda>p. f p \<le> (k::nat)) ps = filter (\<lambda>p. k < f p) ps"
  by (induction ps) (auto intro!: filter_all)

lemma takeWhile_sorted_gt:
  "sorted (map f (rev ps)) \<Longrightarrow> takeWhile (\<lambda>p. \<not> f p \<le> (k::nat)) ps = filter (\<lambda>p. k < f p) ps"
  by (induction ps) (auto simp: sorted_append intro!: filter_none)

lemma dropWhile_sorted_gt:
  "sorted (map f (rev ps)) \<Longrightarrow> dropWhile (\<lambda>p. \<not> f p \<le> (k::nat)) ps = filter (\<lambda>p. f p \<le> k) ps"
  by (induction ps) (auto simp: sorted_append intro!: filter_all)

lemma insertion_step_descending:
  assumes "sorted (map f (rev front))"
  shows "insertion_step (\<lambda>a b. f b \<le> f a) front val
           = filter (\<lambda>p. f val < f p) front @ val # filter (\<lambda>p. f p \<le> (f val :: nat)) front"
proof (cases front)
  case Nil
  then show ?thesis by (simp add: insertion_step_def)
next
  case (Cons first rest)
  show ?thesis
  proof (cases "f first \<le> f val")
    case True
    from assms Cons have "\<forall>p \<in> set front. f p \<le> f first"
      by (auto simp: sorted_append)
    with True have "\<forall>p \<in> set front. f p \<le> f val" by auto
    then have "filter (\<lambda>p. f val < f p) front = []" "filter (\<lambda>p. f p \<le> f val) front = front"
      by (auto simp: filter_empty_conv filter_id_conv)
    with True Cons show ?thesis by (simp add: insertion_step_def)
  next
    case False
    have "rev (unguarded_linear_insert (\<lambda>a b. f b \<le> f a) val (rev front))
            = rev (filter (\<lambda>p. f val < f p) (rev front)) @ val
                # rev (filter (\<lambda>p. f p \<le> f val) (rev front))"
      using assms
      by (simp add: unguarded_linear_insert_conv takeWhile_sorted_le dropWhile_sorted_le)
    with False Cons show ?thesis by (simp add: insertion_step_def rev_filter)
  qed
qed

lemma insertion_step_ascending:
  assumes "sorted (map f front)"
  shows "insertion_step (\<lambda>a b. \<not> f b \<le> f a) front val
           = filter (\<lambda>p. f p \<le> f val) front @ val # filter (\<lambda>p. (f val :: nat) < f p) front"
proof (cases front)
  case Nil
  then show ?thesis by (simp add: insertion_step_def)
next
  case (Cons first rest)
  show ?thesis
  proof (cases "f val < f first")
    case True
    from assms Cons have "\<forall>p \<in> set front. f first \<le> f p" by auto
    with True have "\<forall>p \<in> set front. f val < f p" by auto
    then have "filter (\<lambda>p. f p \<le> f val) front = []" "filter (\<lambda>p. f val < f p) front = front"
      by (auto simp: filter_empty_conv filter_id_conv)
    with True Cons show ?thesis by (simp add: insertion_step_def not_le)
  next
    case False
    have "rev (unguarded_linear_insert (\<lambda>a b. \<not> f b \<le> f a) val (rev front))
            = rev (filter (\<lambda>p. f p \<le> f val) (rev front)) @ val
                # rev (filter (\<lambda>p. f val < f p) (rev front))"
      using assms takeWhile_sorted_gt [of f "rev front" "f val"]
        dropWhile_sorted_gt [of f "rev front" "f val"]
      by (simp add: unguarded_linear_insert_conv)
    with False Cons show ?thesis by (simp add: insertion_step_def rev_filter not_le)
  qed
qed

lemma insort_key_left:
  "f y \<le> f x \<Longrightarrow> insort_key f y (as @ x # bs) = insort_key f y as @ x # bs"
  by (induction as) simp_all

lemma insort_key_right:
  "\<forall>a \<in> set as. f a < f y \<Longrightarrow> f x < f y
     \<Longrightarrow> insort_key f y (as @ x # bs) = as @ x # insort_key f y bs"
  by (induction as) auto

lemma sort_key_snoc:
  "sort_key f (ys @ [x])
     = filter (\<lambda>p. f p \<le> f x) (sort_key f ys) @ x # filter (\<lambda>p. (f x :: nat) < f p) (sort_key f ys)"
proof (induction ys)
  case Nil
  show ?case by simp
next
  case (Cons y ys)
  let ?S = "sort_key f ys"
  let ?lo = "filter (\<lambda>p. f p \<le> f x)" and ?hi = "filter (\<lambda>p. f x < f p)"
  have s: "sorted (map f ?S)" by simp
  have "sort_key f ((y # ys) @ [x]) = insort_key f y (?lo ?S @ x # ?hi ?S)"
    using Cons by simp
  also have "\<dots> = ?lo (insort_key f y ?S) @ x # ?hi (insort_key f y ?S)"
  proof (cases "f y \<le> f x")
    case True
    then have "insort_key f y (?lo ?S @ x # ?hi ?S) = insort_key f y (?lo ?S) @ x # ?hi ?S"
      by (rule insort_key_left)
    moreover have "insort_key f y (?lo ?S) = ?lo (insort_key f y ?S)"
      using True s by (simp add: filter_insort)
    moreover have "?hi ?S = ?hi (insort_key f y ?S)"
      using True by (simp add: filter_insort_triv)
    ultimately show ?thesis by simp
  next
    case False
    then have lt: "f x < f y" by simp
    then have "insort_key f y (?lo ?S @ x # ?hi ?S) = ?lo ?S @ x # insort_key f y (?hi ?S)"
      by (intro insort_key_right) auto
    moreover have "insort_key f y (?hi ?S) = ?hi (insort_key f y ?S)"
      using lt s by (simp add: filter_insort)
    moreover have "?lo ?S = ?lo (insort_key f y ?S)"
      using lt by (simp add: filter_insort_triv)
    ultimately show ?thesis by simp
  qed
  finally show ?case by simp
qed

lemma foldl_insertion_ascending:
  "foldl (insertion_step (\<lambda>a b. \<not> f b \<le> f a)) (sort_key f ys) xs
     = sort_key (f :: 'a \<Rightarrow> nat) (ys @ xs)"
proof (induction xs arbitrary: ys)
  case Nil
  show ?case by simp
next
  case (Cons x xs)
  have "insertion_step (\<lambda>a b. \<not> f b \<le> f a) (sort_key f ys) x = sort_key f (ys @ [x])"
    by (simp add: insertion_step_ascending sort_key_snoc)
  with Cons [of "ys @ [x]"] show ?case by simp
qed

lemma foldl_insertion_descending:
  "foldl (insertion_step (\<lambda>a b. f b \<le> f a)) (rev (sort_key f ys)) xs
     = rev (sort_key (f :: 'a \<Rightarrow> nat) (ys @ xs))"
proof (induction xs arbitrary: ys)
  case Nil
  show ?case by simp
next
  case (Cons x xs)
  have "insertion_step (\<lambda>a b. f b \<le> f a) (rev (sort_key f ys)) x
          = rev (sort_key f (ys @ [x]))"
    by (simp add: insertion_step_descending sort_key_snoc rev_filter)
  with Cons [of "ys @ [x]"] show ?case by simp
qed

lemma degree_sort_ascending:
  "degree_sort m branch_v True = sort_key (target_degree m 0) branch_v"
  using foldl_insertion_ascending [of "target_degree m 0" "[]" branch_v]
  by (simp add: degree_sort_def degree_sort_comparator_def stable_sort_def)

lemma degree_sort_descending:
  "degree_sort m branch_v False = rev (sort_key (target_degree m 0) branch_v)"
  using foldl_insertion_descending [of "target_degree m 0" "[]" branch_v]
  by (simp add: degree_sort_def degree_sort_comparator_def stable_sort_def)

text \<open>
  C4. In the edge instance the target vertices 1 and 2 have the same degree, and the
  comparator of the \<^verbatim>\<open>Degree\<close> ordering orders each of the two before the other.
  Sorted under that ordering, the candidates 0, 1, 2 come out as 2, 1, 0: the later of
  the two is moved in front of the earlier one. Under \<^verbatim>\<open>AntiDegree\<close>, where the
  comparator is \<open><\<close>, the two keep their order.
\<close>

theorem degree_sort_reverses_ties:
  "target_degree edge_model 0 1 = target_degree edge_model 0 2
   \<and> degree_sort_comparator edge_model False 1 2
   \<and> degree_sort_comparator edge_model False 2 1
   \<and> degree_sort edge_model [0, 1, 2] False = [2, 1, 0]
   \<and> degree_sort edge_model [0, 1, 2] True = [0, 1, 2]"
  by code_simp

section \<open>The recursion is bounded by the number of unfixed domains\<close>

text \<open>
  \<^verbatim>\<open>restarting_search\<close> is modelled with a bound on the depth of the recursion. The bound
  is not a restriction: every recursive call is made on the domains left by a propagation that
  succeeded, that propagation fixed at least the branch variable, and so the number of domains
  not yet fixed is smaller in the call. With more fuel than unfixed domains the model returns a
  result on every input, for every behaviour of the collaborators. The biased value ordering is
  left out, because its sum of weights can overflow.
\<close>

lemma copy_all_unfixed:
  "\<forall>d \<in> set (copy_nonfixed_domains_and_make_assignment domains v t). \<not> d_fixed d"
  by (induction domains) auto

lemma unfixed_copy [simp]:
  "unfixed (copy_nonfixed_domains_and_make_assignment domains v t) = unfixed domains"
  by (induction domains) (auto simp: unfixed_def)

lemma find_unit_domain_None:
  "find_unit_domain ds = None \<longleftrightarrow> (\<forall>d \<in> set ds. d_fixed d \<or> d_count d \<noteq> 1)"
  by (induction ds) auto

lemma copy_has_unit:
  assumes "d \<in> set domains" "\<not> d_fixed d" "d_v d = v"
  shows "find_unit_domain (copy_nonfixed_domains_and_make_assignment domains v t) \<noteq> None"
proof -
  from assms have "\<exists>d' \<in> set (copy_nonfixed_domains_and_make_assignment domains v t).
                     \<not> d_fixed d' \<and> d_count d' = 1"
    by (induction domains) auto
  then show ?thesis by (auto simp: find_unit_domain_None)
qed

lemma propagate_loop_progress:
  assumes "find_unit_domain ds \<noteq> None"
    and "propagate_loop env params m ds trail s = (ok, ds', trail', s')"
  shows "unfixed ds' < unfixed ds"
proof -
  from assms(1) obtain i where u: "find_unit_domain ds = Some i" by auto
  obtain ok1 ds1 trail1 s1
    where pu: "propagate_unit env params m i ds trail s = (ok1, ds1, trail1, s1)"
    by (cases "propagate_unit env params m i ds trail s")
  from propagate_unit_unfixed [OF u, of env params m trail s] pu
  have less: "unfixed ds1 < unfixed ds" by simp
  show ?thesis
  proof (cases ok1)
    case False
    with u pu assms(2) have "ds' = ds1"
      by (simp add: propagate_loop.simps [of env params m ds])
    with less show ?thesis by simp
  next
    case True
    with u pu assms(2) have "propagate_loop env params m ds1 trail1 s1 = (ok, ds', trail', s')"
      by (simp add: propagate_loop.simps [of env params m ds])
    from propagate_loop_trail [OF this] have "unfixed ds' \<le> unfixed ds1" by auto
    with less show ?thesis by simp
  qed
qed

lemma propagate_progress:
  assumes "find_unit_domain ds \<noteq> None"
    and "propagate env params m ds trail pul s = (ok, ds', trail', s')"
  shows "unfixed ds' < unfixed ds"
proof -
  obtain ok1 ds1 trail1 s1
    where l: "propagate_loop env params m ds trail s = (ok1, ds1, trail1, s1)"
    by (cases "propagate_loop env params m ds trail s")
  from propagate_loop_progress [OF assms(1) l] have less: "unfixed ds1 < unfixed ds" .
  from propagate_loop_trail [OF l] obtain p1 where
    p1: "trail1 = trail @ p1" "length p1 + unfixed ds1 = unfixed ds" by blast
  from propagate_trail [OF assms(2)] obtain p2 where
    p2: "trail' = trail @ p2" "length p2 + unfixed ds' = unfixed ds" by blast
  have "trail' = trail1"
    using assms(2) l
    by (auto simp: propagate_def Let_def split: if_splits prod.splits bool.splits)
  with p1 p2 have "unfixed ds' = unfixed ds1" by simp
  with less show ?thesis by simp
qed

lemma try_value_total:
  assumes child: "\<And>a ds' s'. unfixed ds' < unfixed domains \<Longrightarrow> child a ds' s' \<noteq> None"
    and branch: "d \<in> set domains" "\<not> d_fixed d" "d_v d = v"
  shows "try_value child env params m domains v branch_v k vars \<noteq> None"
proof -
  let ?nd = "copy_nonfixed_domains_and_make_assignment domains v (branch_v ! k)"
  let ?s1 = "(loop_state vars)\<lparr>propagations := propagations (loop_state vars) + 1\<rparr>"
  let ?p = "propagate env params m ?nd
              (loop_assignments vars @ [decision v branch_v k (loop_discrepancy_count vars)])
              (loop_use_lackey_for_propagation vars \<or> propagate_using_lackey params = Always)
              (world ?s1)"
  obtain ok ds a2 w2 where p: "?p = (ok, ds, a2, w2)" by (cases ?p)
  from propagate_progress [OF copy_has_unit [OF branch] p] have "unfixed ds < unfixed domains"
    by simp
  from child [OF this, of a2 "?s1\<lparr>world := w2\<rparr>"]
  obtain r a3 s3 where c: "child a2 ds (?s1\<lparr>world := w2\<rparr>) = Some (r, a3, s3)"
    by (cases "child a2 ds (?s1\<lparr>world := w2\<rparr>)") auto
  show ?thesis
  proof (cases ok)
    case False
    with p show ?thesis by (simp add: try_value_def Let_def)
  next
    case True
    with p c show ?thesis
      by (cases r) (simp_all add: try_value_def Let_def split: prod.splits)
  qed
qed

lemma for_each_value_total:
  assumes "\<And>k vars. body k vars \<noteq> None"
  shows "for_each_value body ks vars \<noteq> None"
proof (induction ks arbitrary: vars)
  case Nil
  show ?case by simp
next
  case (Cons k ks)
  from assms [of k vars] obtain st where b: "body k vars = Some st" by auto
  with Cons show ?case by (cases st) simp_all
qed

lemma restarting_search_returns:
  assumes "value_ordering_heuristic params \<noteq> Biased" and "unfixed domains < fuel"
  shows "restarting_search fuel env params m assignments domains s depth \<noteq> None"
  using assms(2)
proof (induction fuel arbitrary: domains assignments s depth)
  case 0
  then show ?case by simp
next
  case (Suc fuel)
  obtain abort w where ab: "should_abort env (world s) = (abort, w)"
    by (cases "should_abort env (world s)")
  show ?case
  proof (cases abort)
    case True
    with ab show ?thesis by simp
  next
    case False
    show ?thesis
    proof (cases "find_branch_domain m domains")
      case None
      with ab False show ?thesis by (simp add: Let_def)
    next
      case (Some i)
      from branch_inv_foldl [of m domains "length domains"] Some
      have i: "i < length domains" "\<not> d_fixed (domains ! i)"
        by (simp_all add: find_branch_domain_def branch_inv_def)
      let ?s1 = "s\<lparr>nodes := nodes s + 1, world := w\<rparr>"
      from assms(1) have "order_values env params m (branch_values (d_values (domains ! i)))
                            (world ?s1) \<noteq> None"
        by (cases "value_ordering_heuristic params") (simp_all add: order_values_def)
      then obtain branch_v w1 where
        o: "order_values env params m (branch_values (d_values (domains ! i))) (world ?s1)
              = Some (branch_v, w1)"
        by (cases "order_values env params m (branch_values (d_values (domains ! i)))
                     (world ?s1)") auto
      let ?child = "\<lambda>a ds s'. restarting_search fuel env params m a ds s' (depth + 1)"
      have child: "?child a ds' s' \<noteq> None" if "unfixed ds' < unfixed domains" for a ds' s'
        using that Suc.prems by (intro Suc.IH) simp
      have "for_each_value (try_value ?child env params m domains (d_v (domains ! i)) branch_v)
              ks vars \<noteq> None" for ks vars
        by (rule for_each_value_total, rule try_value_total [where d = "domains ! i"])
           (use child i in auto)
      then have "search_values ?child env params m domains (d_v (domains ! i)) branch_v
                   assignments (?s1\<lparr>world := w1\<rparr>) \<noteq> None"
        by (simp add: search_values_def split: option.splits LoopStep.splits)
           (metis prod_cases3)
      with ab False Some o show ?thesis by (simp add: Let_def)
    qed
  qed
qed

end
